theory Spec2Isabelle
  imports Main
begin

section \<open>Compressed sparse tensor storage (SparseTensorUtils.cpp)\<close>

text \<open>
  The storage class \<^verbatim>\<open>SparseTensorStorage<P, I, V>\<close> is modelled at the instantiation
  \<^verbatim>\<open>P = I = uint64_t\<close> used by \<^verbatim>\<open>convertToMLIRSparseTensor\<close> and by the
  \<^verbatim>\<open>p64i64\<close> helpers. Entries of the overhead buffers and buffer lengths are natural
  numbers; the one place where 64-bit arithmetic of the source can wrap around
  (\<^verbatim>\<open>cum_size\<close> in \<^verbatim>\<open>verify\<close>) carries its \<open>mod 2 ^ 64\<close> explicitly.
  The member \<^verbatim>\<open>rev\<close> is called \<open>rev_map\<close> and \<^verbatim>\<open>values\<close> is called
  \<open>values_buf\<close>, since the plain names are taken in Isabelle.
\<close>

datatype DimLevelType = kDense | kCompressed | kSingleton

record 'v Element =
  e_indices :: "nat list"
  e_value :: 'v

record 'v SparseTensorStorage =
  sizes :: "nat list"
  rev_map :: "nat list"
  idx :: "nat list"
  pointers :: "nat list list"
  indices :: "nat list list"
  values_buf :: "'v list"

definition getRank :: "'v SparseTensorStorage \<Rightarrow> nat" where
  "getRank t = length (sizes t)"

definition isCompressedDim :: "'v SparseTensorStorage \<Rightarrow> nat \<Rightarrow> bool" where
  "isCompressedDim t d = (pointers t ! d \<noteq> [])"

subsection \<open>The helpers of verify\<close>

function issorted_loop :: "nat list \<Rightarrow> nat \<Rightarrow> nat \<Rightarrow> nat \<Rightarrow> bool" where
  "issorted_loop arr prev i stop =
     (if i < stop then
        (let cur = arr ! i in
         if cur = prev then issorted_loop arr prev (i + 1) stop
         else if cur < prev then False
         else issorted_loop arr cur (i + 1) stop)
      else True)"
  by pat_completeness auto
termination
  by (relation "measure (\<lambda>(arr, prev, i, stop). stop - i)") auto

definition issorted :: "nat list \<Rightarrow> nat \<Rightarrow> nat \<Rightarrow> bool" where
  "issorted arr start stop =
     (if stop \<le> start + 1 then True
      else issorted_loop arr (arr ! start) (start + 1) stop)"

function isincreasing_loop :: "nat list \<Rightarrow> nat \<Rightarrow> nat \<Rightarrow> nat \<Rightarrow> bool" where
  "isincreasing_loop arr prev i stop =
     (if i < stop then
        (let cur = arr ! i in
         if cur \<le> prev then False
         else isincreasing_loop arr cur (i + 1) stop)
      else True)"
  by pat_completeness auto
termination
  by (relation "measure (\<lambda>(arr, prev, i, stop). stop - i)") auto

definition isincreasing :: "nat list \<Rightarrow> nat \<Rightarrow> nat \<Rightarrow> bool" where
  "isincreasing arr start stop =
     (if stop \<le> start + 1 then True
      else isincreasing_loop arr (arr ! start) (start + 1) stop)"

subsection \<open>verify\<close>

text \<open>
  The check of \<^verbatim>\<open>rev\<close>: every entry is below \<^verbatim>\<open>ndim\<close> and every position of
  the scratch vector \<^verbatim>\<open>zeros\<close> has been marked.
\<close>

definition verify_rev :: "nat list \<Rightarrow> nat \<Rightarrow> bool" where
  "verify_rev r ndim =
     (if length r \<noteq> ndim then False
      else
        (let zeros = fold (\<lambda>i z. if i \<ge> ndim then z else z[i := 1]) r (replicate ndim (0::nat))
         in list_all (\<lambda>i. \<not> i \<ge> ndim) r \<and> list_all (\<lambda>i. \<not> i = 0) zeros))"

text \<open>
  The loop over the pointer-delimited segments of one dimension
  (\<^verbatim>\<open>for (size_t i = 1; i < ptr.size(); ++i)\<close>), threading \<^verbatim>\<open>start\<close> and
  \<^verbatim>\<open>rv\<close>.
\<close>

function verify_segments :: "nat list \<Rightarrow> nat list \<Rightarrow> nat \<Rightarrow> nat \<Rightarrow> bool \<Rightarrow> bool" where
  "verify_segments ptr ix i start r =
     (if i < length ptr then
        (let end = ptr ! i;
             r' = (if end > length ix then False
                   else if \<not> isincreasing ix start end then False
                   else r)
         in verify_segments ptr ix (i + 1) end r')
      else r)"
  by pat_completeness auto
termination
  by (relation "measure (\<lambda>(ptr, ix, i, start, r). length ptr - i)") auto

record vstate =
  is_dense :: bool
  cum_size :: nat
  prev_ptr_len :: nat
  prev_idx_len :: nat
  rv :: bool

text \<open>
  One iteration of the loop over the dimensions. \<open>None\<close> is the early
  \<^verbatim>\<open>return false\<close> on an extent \<^verbatim>\<open>size <= 0\<close>; otherwise the loop-carried
  variables are returned. Each \<^verbatim>\<open>if (c) rv = false\<close> of the source is a conjunct
  \<open>\<not> c\<close> here.
\<close>

definition verify_dim :: "'v SparseTensorStorage \<Rightarrow> nat \<Rightarrow> vstate \<Rightarrow> vstate option" where
  "verify_dim t dim s =
     (let ptr = pointers t ! dim; ix = indices t ! dim; size = sizes t ! dim in
      if size \<le> 0 then None
      else
        (let cum = (cum_size s * size) mod 2 ^ 64 in
         if length ptr = 0 then
           Some (s\<lparr>cum_size := cum, rv := (rv s \<and> \<not> length ix \<noteq> 0)\<rparr>)
         else
           (let rv1 =
                  (if dim = 0 then
                     rv s \<and> \<not> length ptr < 2
                       \<and> \<not> length ptr > (if 2 < length ix + 1 then length ix + 1 else 2)
                   else
                     (if is_dense s then rv s \<and> \<not> length ptr \<noteq> (cum div size + 1) mod 2 ^ 64
                      else rv s \<and> \<not> length ptr > length ix + 1)
                     \<and> \<not> length ptr < 1);
                rv2 = (rv1 \<and> \<not> length ptr > (cum + 1) mod 2 ^ 64 \<and> \<not> length ix > cum);
                check_idx =
                  (issorted ptr 0 (length ptr) \<and> \<not> ptr ! 0 \<noteq> 0
                    \<and> \<not> ptr ! (length ptr - 1) \<noteq> length ix
                    \<and> list_all (\<lambda>i. \<not> i \<ge> size) ix);
                rv3 = (rv2 \<and> check_idx);
                rv4 = (if check_idx then verify_segments ptr ix 1 (ptr ! 0) rv3 else rv3);
                rv5 = (rv4 \<and> \<not> prev_idx_len s \<ge> length ptr
                           \<and> \<not> prev_idx_len s > length ix
                           \<and> \<not> prev_ptr_len s > length ptr + 1
                           \<and> \<not> prev_ptr_len s > length ix + 2)
            in Some \<lparr>is_dense = False, cum_size = cum, prev_ptr_len = length ptr,
                      prev_idx_len = length ix, rv = rv5\<rparr>)))"

function verify_dims :: "'v SparseTensorStorage \<Rightarrow> nat \<Rightarrow> nat \<Rightarrow> vstate \<Rightarrow> vstate option" where
  "verify_dims t dim ndim s =
     (if dim < ndim then
        (case verify_dim t dim s of
           None \<Rightarrow> None
         | Some s' \<Rightarrow> verify_dims t (dim + 1) ndim s')
      else Some s)"
  by pat_completeness auto
termination
  by (relation "measure (\<lambda>(t, dim, ndim, s). ndim - dim)") auto

definition verify :: "'v SparseTensorStorage \<Rightarrow> bool" where
  "verify t =
     (let ndim = getRank t in
      if ndim = 0 then False
      else
        (let rv0 = verify_rev (rev_map t) ndim in
         if length (pointers t) \<noteq> ndim then False
         else if length (indices t) \<noteq> ndim then False
         else if length (sizes t) \<noteq> ndim then False
         else
           (case verify_dims t 0 ndim
                   \<lparr>is_dense = True, cum_size = 1, prev_ptr_len = 0, prev_idx_len = 0, rv = rv0\<rparr> of
              None \<Rightarrow> False
            | Some s \<Rightarrow>
                (if is_dense s then rv s \<and> \<not> cum_size s \<noteq> length (values_buf t)
                 else rv s \<and> \<not> prev_idx_len s \<noteq> length (values_buf t)))))"

subsection \<open>Lexicographic insertion\<close>

text \<open>
  A failed \<^verbatim>\<open>assert\<close> is an error value. The methods below read \<^verbatim>\<open>sizes\<close>
  and never write it, so the recursive ones take it as the parameter \<open>szs\<close>; the
  entry points pass \<open>sizes t\<close>. The value type has a zero, which fills dense storage.
\<close>

datatype assertion =
    NonLexicographicInsertion
  | DuplicationInsertion
  | RankAssertion
  | BoundsAssertion
  | SingletonAssertion

text \<open>
  \<^verbatim>\<open>lexOrder\<close> of the coordinate scheme, on the index vectors of two elements of the
  same rank: the first differing position decides.
\<close>

fun lexOrder :: "nat list \<Rightarrow> nat list \<Rightarrow> bool" where
  "lexOrder (x # xs) (y # ys) = (if x = y then lexOrder xs ys else x < y)"
| "lexOrder _ _ = False"

function lexDiff_loop :: "nat list \<Rightarrow> nat list \<Rightarrow> nat \<Rightarrow> nat \<Rightarrow> assertion + nat" where
  "lexDiff_loop cursor ix r rank =
     (if r < rank then
        (if cursor ! r > ix ! r then Inr r
         else if cursor ! r = ix ! r then lexDiff_loop cursor ix (r + 1) rank
         else Inl NonLexicographicInsertion)
      else Inl DuplicationInsertion)"
  by pat_completeness auto
termination
  by (relation "measure (\<lambda>(cursor, ix, r, rank). rank - r)") auto

definition lexDiff :: "'v SparseTensorStorage \<Rightarrow> nat list \<Rightarrow> assertion + nat" where
  "lexDiff t cursor = lexDiff_loop cursor (idx t) 0 (getRank t)"

text \<open>
  \<^verbatim>\<open>endDim\<close>, with its dense loop \<^verbatim>\<open>for (full; full < sz; full++) endDim(d + 1)\<close>
  as \<open>endDim_dense\<close>. The loop is only entered at a dimension \<open>d\<close> below the rank;
  at any other \<open>d\<close> the call \<^verbatim>\<open>endDim(d + 1)\<close> fails its assertion at once.
\<close>

function endDim :: "nat list \<Rightarrow> ('v::zero) SparseTensorStorage \<Rightarrow> nat
                      \<Rightarrow> assertion + 'v SparseTensorStorage"
  and endDim_dense :: "nat list \<Rightarrow> ('v::zero) SparseTensorStorage \<Rightarrow> nat \<Rightarrow> nat \<Rightarrow> nat
                      \<Rightarrow> assertion + 'v SparseTensorStorage" where
  "endDim szs t d =
     (if \<not> d \<le> length szs then Inl RankAssertion
      else if d = length szs then Inr (t\<lparr>values_buf := values_buf t @ [0]\<rparr>)
      else if isCompressedDim t d then
        Inr (t\<lparr>pointers := (pointers t)[d := pointers t ! d @ [length (indices t ! d)]]\<rparr>)
      else endDim_dense szs t d 0 (szs ! d))"
| "endDim_dense szs t d full sz =
     (if full < sz then
        (if d < length szs then
           (case endDim szs t (d + 1) of
              Inl e \<Rightarrow> Inl e
            | Inr t' \<Rightarrow> endDim_dense szs t' d (full + 1) sz)
         else Inl RankAssertion)
      else Inr t)"
  by pat_completeness auto
termination
  by (relation "inv_image (less_than <*lex*> less_than <*lex*> less_than)
        (\<lambda>x. case x of
                Inl (szs, t, d) \<Rightarrow> (length szs - d, 1::nat, 0::nat)
              | Inr (szs, t, d, full, sz) \<Rightarrow> (length szs - d, 0, sz - full))") auto

text \<open>\<^verbatim>\<open>endPath\<close>: the loop \<^verbatim>\<open>for (i = 0; i < rank - diff; i++)\<close>, inner to outer.\<close>

function endPath_loop :: "nat list \<Rightarrow> ('v::zero) SparseTensorStorage \<Rightarrow> nat \<Rightarrow> nat
                            \<Rightarrow> assertion + 'v SparseTensorStorage" where
  "endPath_loop szs t diff i =
     (if i < length szs - diff then
        (let d = length szs - i - 1 in
         case (if isCompressedDim t d then
                 Inr (t\<lparr>pointers := (pointers t)[d := pointers t ! d @ [length (indices t ! d)]]\<rparr>)
               else endDim_dense szs t d (idx t ! d + 1) (szs ! d)) of
           Inl e \<Rightarrow> Inl e
         | Inr t' \<Rightarrow> endPath_loop szs t' diff (i + 1))
      else Inr t)"
  by pat_completeness auto
termination
  by (relation "measure (\<lambda>(szs, t, diff, i). length szs - diff - i)") auto

definition endPath :: "('v::zero) SparseTensorStorage \<Rightarrow> nat \<Rightarrow> assertion + 'v SparseTensorStorage" where
  "endPath t diff =
     (if \<not> diff \<le> getRank t then Inl RankAssertion
      else endPath_loop (sizes t) t diff 0)"

text \<open>\<^verbatim>\<open>insPath\<close>: the loop \<^verbatim>\<open>for (d = diff; d < rank; d++)\<close>, outer to inner.\<close>

function insPath_loop :: "nat list \<Rightarrow> ('v::zero) SparseTensorStorage \<Rightarrow> nat list \<Rightarrow> nat \<Rightarrow> nat
                            \<Rightarrow> assertion + 'v SparseTensorStorage" where
  "insPath_loop szs t cursor d topv =
     (if d < length szs then
        (let i = cursor ! d in
         case (if isCompressedDim t d then
                 Inr (t\<lparr>indices := (indices t)[d := indices t ! d @ [i]]\<rparr>)
               else endDim_dense szs t d topv i) of
           Inl e \<Rightarrow> Inl e
         | Inr t' \<Rightarrow> insPath_loop szs (t'\<lparr>idx := (idx t')[d := i]\<rparr>) cursor (d + 1) 0)
      else Inr t)"
  by pat_completeness auto
termination
  by (relation "measure (\<lambda>(szs, t, cursor, d, topv). length szs - d)") auto

definition insPath :: "('v::zero) SparseTensorStorage \<Rightarrow> nat list \<Rightarrow> nat \<Rightarrow> nat \<Rightarrow> 'v
                         \<Rightarrow> assertion + 'v SparseTensorStorage" where
  "insPath t cursor diff topv val =
     (if \<not> diff < getRank t then Inl RankAssertion
      else
        (case insPath_loop (sizes t) t cursor diff topv of
           Inl e \<Rightarrow> Inl e
         | Inr t' \<Rightarrow> Inr (t'\<lparr>values_buf := values_buf t' @ [val]\<rparr>)))"

definition lexInsert :: "('v::zero) SparseTensorStorage \<Rightarrow> nat list \<Rightarrow> 'v
                           \<Rightarrow> assertion + 'v SparseTensorStorage" where
  "lexInsert t cursor val =
     (if values_buf t \<noteq> [] then
        (case lexDiff t cursor of
           Inl e \<Rightarrow> Inl e
         | Inr diff \<Rightarrow>
             (case endPath t (diff + 1) of
                Inl e \<Rightarrow> Inl e
              | Inr t' \<Rightarrow> insPath t' cursor diff (idx t' ! diff + 1) val))
      else insPath t cursor 0 0 val)"

definition endInsert :: "('v::zero) SparseTensorStorage \<Rightarrow> assertion + 'v SparseTensorStorage" where
  "endInsert t = (if values_buf t = [] then endDim (sizes t) t 0 else endPath t 0)"

declare issorted_loop.simps [simp del] isincreasing_loop.simps [simp del]
  verify_segments.simps [simp del] verify_dims.simps [simp del]
  lexDiff_loop.simps [simp del] endDim.simps [simp del] endDim_dense.simps [simp del]
  endPath_loop.simps [simp del] insPath_loop.simps [simp del]

subsection \<open>Tensors behind handles: duplication and the mutators\<close>

text \<open>
  Generated code holds a tensor as an opaque pointer to a heap object. The heap is a
  list of storage objects and a handle is a position in it; \<^verbatim>\<open>new\<close> appends.
  The members of a storage object are \<^verbatim>\<open>std::vector\<close>s held by value, so an object
  in the heap owns its buffers.
\<close>

type_synonym 'v heap = "'v SparseTensorStorage list"

text \<open>
  The constructor \<^verbatim>\<open>SparseTensorStorage(void *other)\<close> used by \<^verbatim>\<open>dup\<close>: it
  copy-constructs \<^verbatim>\<open>sizes\<close>, \<^verbatim>\<open>rev\<close>, \<^verbatim>\<open>pointers\<close>, \<^verbatim>\<open>indices\<close> and
  \<^verbatim>\<open>values\<close>; the index cursor \<^verbatim>\<open>idx\<close> is not in its initialiser list and
  starts empty.
\<close>

definition SparseTensorStorage_copy :: "'v SparseTensorStorage \<Rightarrow> 'v SparseTensorStorage" where
  "SparseTensorStorage_copy other =
     \<lparr>sizes = sizes other, rev_map = rev_map other, idx = [],
      pointers = pointers other, indices = indices other, values_buf = values_buf other\<rparr>"

definition dup :: "'v heap \<Rightarrow> nat \<Rightarrow> nat \<times> 'v heap" where
  "dup h this = (length h, h @ [SparseTensorStorage_copy (h ! this)])"

text \<open>\<^verbatim>\<open>std::vector::resize\<close>: cut, or fill with value-initialised entries.\<close>

definition resize :: "('a::zero) list \<Rightarrow> nat \<Rightarrow> 'a list" where
  "resize xs n = take n xs @ replicate (n - length xs) 0"

text \<open>
  The mutators of one storage object: the \<^verbatim>\<open>assign_rev\<close>, \<^verbatim>\<open>resize_*\<close> and
  \<^verbatim>\<open>swap_*\<close> methods, and a store through the buffer that \<^verbatim>\<open>getPointers\<close>,
  \<^verbatim>\<open>getIndices\<close> or \<^verbatim>\<open>getValues\<close> hands out (a pointer to the member itself).
  A swap takes the other vector as its argument and leaves it in the object.
\<close>

datatype 'v mutation =
    Assign_rev nat nat
  | Resize_pointers nat nat
  | Resize_index nat nat
  | Resize_values nat
  | Resize_dim nat nat
  | Swap_rev "nat list"
  | Swap_sizes "nat list"
  | Swap_pointers "nat list list"
  | Swap_indices "nat list list"
  | Swap_values "'v list"
  | Store_pointer nat nat nat
  | Store_index nat nat nat
  | Store_value nat 'v

fun mutate :: "('v::zero) mutation \<Rightarrow> 'v SparseTensorStorage \<Rightarrow> 'v SparseTensorStorage" where
  "mutate (Assign_rev d index) t = t\<lparr>rev_map := (rev_map t)[d := index]\<rparr>"
| "mutate (Resize_pointers d n) t = t\<lparr>pointers := (pointers t)[d := resize (pointers t ! d) n]\<rparr>"
| "mutate (Resize_index d n) t = t\<lparr>indices := (indices t)[d := resize (indices t ! d) n]\<rparr>"
| "mutate (Resize_values n) t = t\<lparr>values_buf := resize (values_buf t) n\<rparr>"
| "mutate (Resize_dim d n) t = t\<lparr>sizes := (sizes t)[d := n]\<rparr>"
| "mutate (Swap_rev new_rev) t = t\<lparr>rev_map := new_rev\<rparr>"
| "mutate (Swap_sizes new_sizes) t = t\<lparr>sizes := new_sizes\<rparr>"
| "mutate (Swap_pointers new_pointers) t = t\<lparr>pointers := new_pointers\<rparr>"
| "mutate (Swap_indices new_indices) t = t\<lparr>indices := new_indices\<rparr>"
| "mutate (Swap_values new_values) t = t\<lparr>values_buf := new_values\<rparr>"
| "mutate (Store_pointer d i v) t = t\<lparr>pointers := (pointers t)[d := (pointers t ! d)[i := v]]\<rparr>"
| "mutate (Store_index d i v) t = t\<lparr>indices := (indices t)[d := (indices t ! d)[i := v]]\<rparr>"
| "mutate (Store_value i v) t = t\<lparr>values_buf := (values_buf t)[i := v]\<rparr>"

definition mutate_at :: "('v::zero) heap \<Rightarrow> nat \<Rightarrow> 'v mutation \<Rightarrow> 'v heap" where
  "mutate_at h p m = h[p := mutate m (h ! p)]"

section \<open>The lowering of the GraphBLAS operations (GraphBLASPasses.cpp)\<close>

text \<open>
  The lowering patterns emit loops over the buffers of the storage objects. Each
  pattern is modelled by the function that the emitted code computes: an
  \<^verbatim>\<open>scf.for\<close> or \<^verbatim>\<open>scf.parallel\<close> loop from \<open>lb\<close> to \<open>ub\<close> is a \<open>fold\<close> over
  \<open>[lb..<ub]\<close>, a \<^verbatim>\<open>memref.load\<close> is \<open>!\<close> and a \<^verbatim>\<open>memref.store\<close> is a list
  update. A load or store outside its buffer is undefined behaviour of the
  generated code; the theorems below carry the well-formedness of the operands that
  keeps every access inside.
\<close>

subsection \<open>Tensor types and sizes\<close>

text \<open>
  Modelled from the spec: \<^verbatim>\<open>hasRowOrdering\<close> and \<^verbatim>\<open>hasColumnOrdering\<close> are declared
  in \<^verbatim>\<open>GraphBLASUtils.h\<close>, which is not part of the sources at hand. The spec has the
  dimension order of a rank 2 tensor distinguish row-major (CSR) from column-major (CSC)
  layout, so a tensor type carries its layout beside its rank and bit widths.
\<close>

datatype layout = RowMajor | ColumnMajor

record TensorType =
  tt_rank :: nat
  tt_layout :: layout
  pointerBitWidth :: nat
  indexBitWidth :: nat

definition hasRowOrdering :: "TensorType \<Rightarrow> bool" where
  "hasRowOrdering ty = (tt_layout ty = RowMajor)"

definition hasColumnOrdering :: "TensorType \<Rightarrow> bool" where
  "hasColumnOrdering ty = (tt_layout ty = ColumnMajor)"

text \<open>
  \<^verbatim>\<open>tensor.dim\<close> gives the extent of a logical dimension; storage keeps the extents
  in storage order and \<^verbatim>\<open>print_components\<close> reads the logical shape as
  \<^verbatim>\<open>sizes[rev[i]]\<close>.
\<close>

definition dim :: "'v SparseTensorStorage \<Rightarrow> nat \<Rightarrow> nat" where
  "dim t d = sizes t ! (rev_map t ! d)"

definition NumRows :: "'v SparseTensorStorage \<Rightarrow> nat" where
  "NumRows t = dim t 0"

definition NumCols :: "'v SparseTensorStorage \<Rightarrow> nat" where
  "NumCols t = dim t 1"

text \<open>
  A tensor of a type: a vector is one compressed dimension, a matrix a dense dimension
  over a compressed one, stored by rows or by columns as the layout of the type says.
\<close>

definition has_type :: "'v SparseTensorStorage \<Rightarrow> TensorType \<Rightarrow> bool" where
  "has_type t ty =
     (getRank t = tt_rank ty \<and> length (pointers t) = tt_rank ty
      \<and> length (indices t) = tt_rank ty
      \<and> (if tt_rank ty = 1 then rev_map t = [0]
         else tt_rank ty = 2
              \<and> rev_map t = (if tt_layout ty = RowMajor then [0, 1] else [1, 0])))"

subsection \<open>num\_vals\<close>

definition load :: "'a list \<Rightarrow> nat \<Rightarrow> 'a option" where
  "load m i = (if i < length m then Some (m ! i) else None)"

text \<open>
  \<^verbatim>\<open>arith.index_cast\<close> from the pointer type to \<^verbatim>\<open>index\<close>. Pointers are 64 bits wide
  in the storage modelled here and so is \<^verbatim>\<open>index\<close>: the cast keeps the value.
\<close>

definition index_cast :: "nat \<Rightarrow> nat" where
  "index_cast x = x"

definition num_vals :: "TensorType \<Rightarrow> 'v SparseTensorStorage \<Rightarrow> nat option" where
  "num_vals inputType inputTensor =
     (let rank = tt_rank inputType;
          ptrs = pointers inputTensor ! (rank - 1);
          npointers =
            (if rank = 1 then 1
             else if hasRowOrdering inputType then dim inputTensor 0
             else dim inputTensor 1)
      in map_option index_cast (load ptrs npointers))"

subsection \<open>convert\_layout\<close>

text \<open>
  Modelled from the spec: \<^verbatim>\<open>callEmptyLike\<close> is declared in \<^verbatim>\<open>GraphBLASUtils.h\<close>,
  which is not part of the sources at hand. By the spec a tensor is created empty with
  its pointers sized but unpopulated; the new object has the sizes and dimension order
  of its argument, one pointer entry in its compressed (last) dimension and no
  indices or values.
\<close>

definition callEmptyLike :: "'v SparseTensorStorage \<Rightarrow> 'v SparseTensorStorage" where
  "callEmptyLike t =
     \<lparr>sizes = sizes t, rev_map = rev_map t, idx = replicate (getRank t) 0,
      pointers = replicate (getRank t - 1) [] @ [[0]],
      indices = replicate (getRank t) [], values_buf = []\<rparr>"

text \<open>The five loops of \<^verbatim>\<open>LowerConvertLayoutRewrite\<close>, in the order of the source.\<close>

definition cl_init :: "nat \<Rightarrow> nat list \<Rightarrow> nat list" where
  "cl_init ncol outputPtrs = fold (\<lambda>i p. p[i := 0]) [0..<ncol] outputPtrs"

definition cl_count :: "nat list \<Rightarrow> nat \<Rightarrow> nat list \<Rightarrow> nat list" where
  "cl_count inputIndices nnz outputPtrs =
     fold (\<lambda>k p. let colA = inputIndices ! k; colB = p ! colA in p[colA := colB + 1])
       [0..<nnz] outputPtrs"

definition cl_cumsum :: "nat \<Rightarrow> nat list \<Rightarrow> nat list" where
  "cl_cumsum ncol outputPtrs =
     fold (\<lambda>i p. let temp = p ! i; cumsum = p ! ncol in (p[i := cumsum])[ncol := cumsum + temp])
       [0..<ncol] (outputPtrs[ncol := 0])"

definition cl_copy_step :: "nat list \<Rightarrow> 'v list \<Rightarrow> nat \<Rightarrow> nat
     \<Rightarrow> nat list \<times> nat list \<times> 'v list \<Rightarrow> nat list \<times> nat list \<times> 'v list" where
  "cl_copy_step inputIndices inputValues row jj s =
     (case s of (p, ix, vs) \<Rightarrow>
        (let col = inputIndices ! jj; dest = p ! col;
             ix' = ix[dest := row];
             vs' = vs[dest := inputValues ! jj]
         in (p[col := p ! col + 1], ix', vs')))"

definition cl_copy :: "nat list \<Rightarrow> nat list \<Rightarrow> 'v list \<Rightarrow> nat
     \<Rightarrow> nat list \<times> nat list \<times> 'v list \<Rightarrow> nat list \<times> nat list \<times> 'v list" where
  "cl_copy inputPtrs inputIndices inputValues nrow s =
     fold (\<lambda>row. fold (cl_copy_step inputIndices inputValues row)
                    [inputPtrs ! row..<inputPtrs ! (row + 1)])
       [0..<nrow] s"

definition cl_shift :: "nat \<Rightarrow> nat list \<Rightarrow> nat list" where
  "cl_shift ncol outputPtrs =
     (let last_last = outputPtrs ! ncol;
          p = fold (\<lambda>iCol p. let swapTemp = p ! iCol; last = p ! ncol
                              in (p[iCol := last])[ncol := swapTemp])
                [0..<ncol] (outputPtrs[ncol := 0])
      in p[ncol := last_last])"

text \<open>
  The pattern itself. The result is \<open>None\<close> where \<^verbatim>\<open>graphblas.num_vals\<close> loads
  outside the pointer buffer. The names \<open>nrow\<close> and \<open>ncol\<close> are exchanged for a
  column-major input, as in the source.
\<close>

definition convert_layout_tensor ::
    "TensorType \<Rightarrow> TensorType \<Rightarrow> ('v::zero) SparseTensorStorage \<Rightarrow> 'v SparseTensorStorage option" where
  "convert_layout_tensor inputType outputType inputTensor =
     (case num_vals inputType inputTensor of
        None \<Rightarrow> None
      | Some nnz \<Rightarrow>
         (let inputPtrs = pointers inputTensor ! 1;
              inputIndices = indices inputTensor ! 1;
              inputValues = values_buf inputTensor;
              nrow = NumRows inputTensor;
              ncol = NumCols inputTensor;
              duplicate = callEmptyLike inputTensor;
              outputIsCSC = hasColumnOrdering outputType;
              d1 = (if outputIsCSC then
                      mutate (Resize_dim 1 nrow) (mutate (Resize_dim 0 ncol)
                        (mutate (Assign_rev 1 0) (mutate (Assign_rev 0 1) duplicate)))
                    else
                      mutate (Resize_dim 1 ncol) (mutate (Resize_dim 0 nrow)
                        (mutate (Assign_rev 1 1) (mutate (Assign_rev 0 0) duplicate))));
              nrow' = (if outputIsCSC then nrow else ncol);
              ncol' = (if outputIsCSC then ncol else nrow);
              d2 = mutate (Resize_values nnz) (mutate (Resize_index 1 nnz)
                     (mutate (Resize_pointers 1 (ncol' + 1)) d1));
              p2 = cl_cumsum ncol' (cl_count inputIndices nnz (cl_init ncol' (pointers d2 ! 1)));
              s = cl_copy inputPtrs inputIndices inputValues nrow' (p2, indices d2 ! 1, values_buf d2)
          in Some (d2\<lparr>pointers := (pointers d2)[1 := cl_shift ncol' (fst s)],
                       indices := (indices d2)[1 := fst (snd s)],
                       values_buf := snd (snd s)\<rparr>)))"

text \<open>
  On the heap: the shortcut returns the handle of the input itself; otherwise the
  converted tensor is a new object.
\<close>

definition convert_layout ::
    "('v::zero) heap \<Rightarrow> nat \<Rightarrow> TensorType \<Rightarrow> TensorType \<Rightarrow> (nat \<times> 'v heap) option" where
  "convert_layout h inputTensor inputType outputType =
     (if inputType = outputType then Some (inputTensor, h)
      else
        (case convert_layout_tensor inputType outputType (h ! inputTensor) of
           None \<Rightarrow> None
         | Some output \<Rightarrow> Some (length h, h @ [output])))"

text \<open>
  Auxiliary notions for the counting sort of \<open>convert_layout\<close>: the first slot of a
  bucket, the slot of the \<open>j\<close>-th stored entry, the pairs (segment, position) in the
  order the copy loop visits them, and the invariant of the copy loop after \<open>k\<close> entries.
\<close>

definition cl_start :: "nat list \<Rightarrow> nat \<Rightarrow> nat" where
  "cl_start Aj c = length (filter (\<lambda>x. x < c) Aj)"

definition cl_dest :: "nat list \<Rightarrow> nat \<Rightarrow> nat" where
  "cl_dest Aj j = cl_start Aj (Aj ! j) + count_list (take j Aj) (Aj ! j)"

definition row_pairs :: "nat list \<Rightarrow> nat \<Rightarrow> (nat \<times> nat) list" where
  "row_pairs Ap m = concat (map (\<lambda>r. map (Pair r) [Ap ! r..<Ap ! (r + 1)]) [0..<m])"

definition copy_inv :: "nat list \<Rightarrow> 'v list \<Rightarrow> (nat \<times> nat) list \<Rightarrow> nat \<Rightarrow> nat
    \<Rightarrow> nat list \<times> nat list \<times> 'v list \<Rightarrow> bool" where
  "copy_inv Aj Ax es n k s =
     (case s of (p, ix, vs) \<Rightarrow>
        length p = Suc n \<and> length ix = length Aj \<and> length vs = length Aj
        \<and> p ! n = cl_start Aj n
        \<and> (\<forall>c<n. p ! c = cl_start Aj c + count_list (take k Aj) c)
        \<and> (\<forall>j<k. ix ! cl_dest Aj j = fst (es ! j) \<and> vs ! cl_dest Aj j = Ax ! j))"

subsection \<open>Well-formed matrices and their coordinate content\<close>

text \<open>
  The buffers of a compressed dimension over \<open>m\<close> segments with indices below \<open>n\<close>:
  \<open>m + 1\<close> non-decreasing pointers from 0 to the number of stored indices, as many
  values as indices, every index below \<open>n\<close>. Sortedness of the indices inside a
  segment is not asked for.
\<close>

definition wf_csr :: "nat \<Rightarrow> nat \<Rightarrow> nat list \<Rightarrow> nat list \<Rightarrow> 'v list \<Rightarrow> bool" where
  "wf_csr m n Ap Aj Ax =
     (length Ap = Suc m \<and> Ap ! 0 = 0 \<and> (\<forall>r<m. Ap ! r \<le> Ap ! Suc r)
      \<and> Ap ! m = length Aj \<and> length Ax = length Aj \<and> (\<forall>x\<in>set Aj. x < n))"

text \<open>
  The stored entries of a matrix, as (storage coordinate, value) pairs in storage order,
  and as (logical coordinate, value) pairs: logical dimension \<open>d\<close> is storage dimension
  \<open>rev_map ! d\<close>, as for the sizes.
\<close>

definition stored_entries :: "nat list \<Rightarrow> nat list \<Rightarrow> 'v list \<Rightarrow> nat \<Rightarrow> ((nat \<times> nat) \<times> 'v) list" where
  "stored_entries Ap Aj Ax m = map (\<lambda>(r, k). ((r, Aj ! k), Ax ! k)) (row_pairs Ap m)"

definition swap_entry :: "(nat \<times> nat) \<times> 'v \<Rightarrow> (nat \<times> nat) \<times> 'v" where
  "swap_entry e = ((snd (fst e), fst (fst e)), snd e)"

definition wf_matrix :: "'v SparseTensorStorage \<Rightarrow> bool" where
  "wf_matrix t =
     (length (sizes t) = 2 \<and> length (pointers t) = 2 \<and> length (indices t) = 2
      \<and> wf_csr (sizes t ! 0) (sizes t ! 1) (pointers t ! 1) (indices t ! 1) (values_buf t))"

definition coo_entries :: "'v SparseTensorStorage \<Rightarrow> ((nat \<times> nat) \<times> 'v) list" where
  "coo_entries t =
     map (\<lambda>((a, b), v). (([a, b] ! (rev_map t ! 0), [a, b] ! (rev_map t ! 1)), v))
       (stored_entries (pointers t ! 1) (indices t ! 1) (values_buf t) (sizes t ! 0))"

subsection \<open>The matrices of the tests\<close>

text \<open>
  The operands of \<^verbatim>\<open>matrix_multiply.mlir\<close>: \<open>A = [[0,1,2,0],[0,0,0,3]]\<close> by rows,
  \<open>B = [[0,7],[4,0],[5,0],[6,8]]\<close> by columns, and the mask \<open>[[9,0],[0,8]]\<close> by rows;
  a zero of the dense constants is an entry that is not stored.
\<close>

definition CSR64 :: TensorType where
  "CSR64 = \<lparr>tt_rank = 2, tt_layout = RowMajor, pointerBitWidth = 64, indexBitWidth = 64\<rparr>"

definition CSC64 :: TensorType where
  "CSC64 = \<lparr>tt_rank = 2, tt_layout = ColumnMajor, pointerBitWidth = 64, indexBitWidth = 64\<rparr>"

definition a_csr :: "int SparseTensorStorage" where
  "a_csr = \<lparr>sizes = [2, 4], rev_map = [0, 1], idx = [0, 0], pointers = [[], [0, 2, 3]],
            indices = [[], [1, 2, 3]], values_buf = [1, 2, 3]\<rparr>"

definition b_csc :: "int SparseTensorStorage" where
  "b_csc = \<lparr>sizes = [2, 4], rev_map = [1, 0], idx = [0, 0], pointers = [[], [0, 3, 5]],
            indices = [[], [1, 2, 3, 0, 3]], values_buf = [4, 5, 6, 7, 8]\<rparr>"

definition mask_csr :: "int SparseTensorStorage" where
  "mask_csr = \<lparr>sizes = [2, 2], rev_map = [0, 1], idx = [0, 0], pointers = [[], [0, 1, 2]],
               indices = [[], [0, 1]], values_buf = [9, 8]\<rparr>"

subsection \<open>The coordinate scheme\<close>

text \<open>
  \<^verbatim>\<open>SparseTensorCOO\<close>: the sizes and the elements added so far. \<^verbatim>\<open>add\<close> asserts
  that the index vector has the rank of the tensor and lies within its bounds.
\<close>

record 'v SparseTensorCOO =
  coo_sizes :: "nat list"
  elements :: "'v Element list"

definition newSparseTensorCOO :: "nat \<Rightarrow> nat list \<Rightarrow> nat list \<Rightarrow> 'v SparseTensorCOO" where
  "newSparseTensorCOO rank szs perm =
     \<lparr>coo_sizes = fold (\<lambda>r permsz. permsz[perm ! r := szs ! r]) [0..<rank] (replicate rank 0),
      elements = []\<rparr>"

definition add :: "'v SparseTensorCOO \<Rightarrow> nat list \<Rightarrow> 'v \<Rightarrow> assertion + 'v SparseTensorCOO" where
  "add tensor ind val =
     (let rank = length (coo_sizes tensor) in
      if \<not> rank = length ind then Inl RankAssertion
      else if \<not> list_all (\<lambda>r. ind ! r < coo_sizes tensor ! r) [0..<rank] then Inl BoundsAssertion
      else Inr (tensor\<lparr>elements := elements tensor @ [\<lparr>e_indices = ind, e_value = val\<rparr>]\<rparr>))"

text \<open>
  \<^verbatim>\<open>sort\<close> is \<^verbatim>\<open>std::sort\<close> with \<^verbatim>\<open>lexOrder\<close>. It is modelled by insertion sort,
  which keeps elements of equal indices in the order they were added; \<^verbatim>\<open>std::sort\<close>
  may leave them in any order.
\<close>

fun insert_lex :: "'v Element \<Rightarrow> 'v Element list \<Rightarrow> 'v Element list" where
  "insert_lex e [] = [e]"
| "insert_lex e (x # xs) =
     (if lexOrder (e_indices x) (e_indices e) then x # insert_lex e xs else e # x # xs)"

definition sort_elements :: "'v Element list \<Rightarrow> 'v Element list" where
  "sort_elements es = foldr insert_lex es []"

subsection \<open>Construction from the coordinate scheme\<close>

text \<open>
  The inner loop of \<^verbatim>\<open>fromCOO\<close> that finds the end of the segment of elements with
  index \<open>i\<close> in dimension \<open>d\<close>.
\<close>

function find_seg :: "'v Element list \<Rightarrow> nat \<Rightarrow> nat \<Rightarrow> nat \<Rightarrow> nat \<Rightarrow> nat" where
  "find_seg elems d i seg hi =
     (if seg < hi \<and> e_indices (elems ! seg) ! d = i then find_seg elems d i (seg + 1) hi
      else seg)"
  by pat_completeness auto
termination
  by (relation "measure (\<lambda>(elems, d, i, seg, hi). hi - seg)") auto

declare find_seg.simps [simp del]

lemma find_seg_ge: "seg \<le> find_seg elems d i seg hi"
proof (induction elems d i seg hi rule: find_seg.induct)
  case (1 elems d i seg hi)
  then show ?case
    by (subst find_seg.simps) auto
qed

text \<open>
  \<^verbatim>\<open>fromCOO\<close> and its loop \<^verbatim>\<open>while (lo < hi)\<close>, which carries \<^verbatim>\<open>full\<close>. The loop
  is only entered at a dimension \<open>d\<close> below the rank; at any other \<open>d\<close> the call
  \<^verbatim>\<open>fromCOO(elements, lo, seg, d + 1)\<close> fails its first assertion.
\<close>

function fromCOO :: "nat list \<Rightarrow> ('v::zero) Element list \<Rightarrow> 'v SparseTensorStorage
                       \<Rightarrow> nat \<Rightarrow> nat \<Rightarrow> nat \<Rightarrow> assertion + 'v SparseTensorStorage"
  and fromCOO_loop :: "nat list \<Rightarrow> ('v::zero) Element list \<Rightarrow> 'v SparseTensorStorage
                       \<Rightarrow> nat \<Rightarrow> nat \<Rightarrow> nat \<Rightarrow> nat \<Rightarrow> assertion + 'v SparseTensorStorage" where
  "fromCOO szs elems t lo hi d =
     (if \<not> d \<le> length szs then Inl RankAssertion
      else if d = length szs then
        (if \<not> (lo < hi \<and> hi \<le> length elems) then Inl BoundsAssertion
         else Inr (t\<lparr>values_buf := values_buf t @ [e_value (elems ! lo)]\<rparr>))
      else fromCOO_loop szs elems t lo hi d 0)"
| "fromCOO_loop szs elems t lo hi d full =
     (if lo < hi then
        (if \<not> (lo < length elems \<and> hi \<le> length elems) then Inl BoundsAssertion
         else if \<not> d < length szs then Inl RankAssertion
         else
           (let i = e_indices (elems ! lo) ! d;
                seg = find_seg elems d i (lo + 1) hi
            in case (if isCompressedDim t d then
                       Inr (t\<lparr>indices := (indices t)[d := indices t ! d @ [i]]\<rparr>)
                     else endDim_dense szs t d full i) of
                 Inl e \<Rightarrow> Inl e
               | Inr t1 \<Rightarrow>
                   (case fromCOO szs elems t1 lo seg (d + 1) of
                      Inl e \<Rightarrow> Inl e
                    | Inr t2 \<Rightarrow>
                        fromCOO_loop szs elems t2 seg hi d
                          (if isCompressedDim t d then full
                           else (if full < i then i else full) + 1))))
      else
        (if isCompressedDim t d then
           Inr (t\<lparr>pointers := (pointers t)[d := pointers t ! d @ [length (indices t ! d)]]\<rparr>)
         else endDim_dense szs t d full (szs ! d)))"
  by pat_completeness auto
termination
  apply (relation "inv_image (less_than <*lex*> less_than <*lex*> less_than)
        (\<lambda>x. case x of
                Inl (szs, elems, t, lo, hi, d) \<Rightarrow> (length szs - d, 1::nat, 0::nat)
              | Inr (szs, elems, t, lo, hi, d, full) \<Rightarrow> (length szs - d, 0, hi - lo))")
     apply (intro wf_inv_image wf_lex_prod wf_less_than)
    apply simp
   apply simp
  subgoal for szs elems t lo hi d
    using find_seg_ge [of "lo + 1" elems d "e_indices (elems ! lo) ! d" hi]
    by simp
  done

text \<open>
  The constructor. The loop that reserves capacity only asserts that no dimension is
  a singleton; for a tensor without compressed dimension it leaves in \<^verbatim>\<open>sz\<close> the
  product of the sizes, in 64 bits.
\<close>

definition SparseTensorStorage_new ::
    "nat list \<Rightarrow> nat list \<Rightarrow> DimLevelType list \<Rightarrow> ('v::zero) SparseTensorCOO option
       \<Rightarrow> assertion + 'v SparseTensorStorage" where
  "SparseTensorStorage_new szs perm sparsity tensor =
     (let rank = length szs;
          rev0 = fold (\<lambda>r rv. rv[perm ! r := r]) [0..<rank] (replicate rank 0);
          allDense = list_all (\<lambda>r. sparsity ! r \<noteq> kCompressed) [0..<rank];
          sz = fold (\<lambda>r sz. (sz * szs ! r) mod 2 ^ 64) [0..<rank] 1;
          t0 = \<lparr>sizes = szs, rev_map = rev0, idx = replicate rank 0,
                pointers = map (\<lambda>r. if sparsity ! r = kCompressed then [0] else []) [0..<rank],
                indices = replicate rank [], values_buf = []\<rparr>
      in if \<not> list_all (\<lambda>r. sparsity ! r = kCompressed \<or> sparsity ! r = kDense) [0..<rank]
         then Inl SingletonAssertion
         else
           (case tensor of
              Some coo \<Rightarrow>
                (let elems = sort_elements (elements coo)
                 in fromCOO szs elems t0 0 (length elems) 0)
            | None \<Rightarrow>
                (if allDense then Inr (t0\<lparr>values_buf := resize (values_buf t0) sz\<rparr>)
                 else Inr t0)))"

definition newSparseTensor ::
    "nat \<Rightarrow> nat list \<Rightarrow> nat list \<Rightarrow> DimLevelType list \<Rightarrow> ('v::zero) SparseTensorCOO option
       \<Rightarrow> assertion + 'v SparseTensorStorage" where
  "newSparseTensor rank szs perm sparsity tensor =
     (case tensor of
        Some coo \<Rightarrow>
          (if \<not> length (coo_sizes coo) = rank then Inl RankAssertion
           else if \<not> list_all (\<lambda>r. szs ! r = 0 \<or> coo_sizes coo ! (perm ! r) = szs ! r) [0..<rank]
           then Inl BoundsAssertion
           else SparseTensorStorage_new (coo_sizes coo) perm sparsity tensor)
      | None \<Rightarrow>
          SparseTensorStorage_new
            (fold (\<lambda>r permsz. permsz[perm ! r := szs ! r]) [0..<rank] (replicate rank 0))
            perm sparsity None)"

text \<open>
  \<^verbatim>\<open>convertToMLIRSparseTensor\<close>, the construction from coordinates of the interface:
  all dimensions compressed, the identity order, the indices in one flat array of
  \<open>nse\<close> rows of \<open>rank\<close> entries.
\<close>

function add_all :: "('v::zero) SparseTensorCOO \<Rightarrow> nat \<Rightarrow> nat \<Rightarrow> 'v list \<Rightarrow> nat list \<Rightarrow> nat
                       \<Rightarrow> assertion + 'v SparseTensorCOO" where
  "add_all tensor rank nse vals inds i =
     (if i < nse then
        (case add tensor (map (\<lambda>r. inds ! (i * rank + r)) [0..<rank]) (vals ! i) of
           Inl e \<Rightarrow> Inl e
         | Inr tensor' \<Rightarrow> add_all tensor' rank nse vals inds (i + 1))
      else Inr tensor)"
  by pat_completeness auto
termination
  by (relation "measure (\<lambda>(tensor, rank, nse, vals, inds, i). nse - i)") auto

definition convertToMLIRSparseTensor ::
    "nat \<Rightarrow> nat \<Rightarrow> nat list \<Rightarrow> ('v::zero) list \<Rightarrow> nat list \<Rightarrow> assertion + 'v SparseTensorStorage" where
  "convertToMLIRSparseTensor rank nse shape vals inds =
     (let sparse = replicate rank kCompressed;
          perm = [0..<rank]
      in case add_all (newSparseTensorCOO rank shape perm) rank nse vals inds 0 of
           Inl e \<Rightarrow> Inl e
         | Inr tensor \<Rightarrow> newSparseTensor rank shape perm sparse (Some tensor))"

declare fromCOO.simps [simp del] fromCOO_loop.simps [simp del] add_all.simps [simp del]

section \<open>Properties of verify\<close>

lemma verify_dims_zero_extent:
  "dm \<le> d \<Longrightarrow> d < ndim \<Longrightarrow> sizes t ! d = 0 \<Longrightarrow> verify_dims t dm ndim s = None"
proof (induction t dm ndim s rule: verify_dims.induct)
  case (1 t dm ndim s)
  show ?case
  proof (cases "dm = d")
    case True
    with "1.prems" have "verify_dim t dm s = None"
      by (simp add: verify_dim_def)
    with "1.prems" show ?thesis by (simp add: verify_dims.simps)
  next
    case False
    with "1.prems" have lt: "dm < ndim" and le: "dm + 1 \<le> d" by simp_all
    show ?thesis
    proof (cases "verify_dim t dm s")
      case None
      with lt show ?thesis by (simp add: verify_dims.simps)
    next
      case (Some s')
      with "1.IH" [OF lt Some le "1.prems"(2) "1.prems"(3)] lt show ?thesis
        by (simp add: verify_dims.simps)
    qed
  qed
qed

text \<open>
  C9: \<open>verify\<close> returns false for every tensor of rank 0 and for every tensor with a
  dimension of extent 0, whatever its pointer, index and value buffers hold.
\<close>

theorem verify_rejects_empty_shape:
  "getRank t = 0 \<or> 0 \<in> set (sizes t) \<Longrightarrow> verify t = False"
proof (cases "getRank t = 0")
  case True
  then show ?thesis by (simp add: verify_def)
next
  case False
  assume "getRank t = 0 \<or> 0 \<in> set (sizes t)"
  with False have "0 \<in> set (sizes t)" by simp
  then obtain d where d: "d < length (sizes t)" "sizes t ! d = 0"
    by (auto simp: in_set_conv_nth)
  then have "verify_dims t 0 (getRank t) s = None" for s
    by (intro verify_dims_zero_extent [where d = d]) (simp_all add: getRank_def)
  then show ?thesis by (simp add: verify_def Let_def)
qed

theorem verify_rejects_empty_shape_witness:
  "(getRank \<lparr>sizes = [2, 0], rev_map = [0, 1], idx = [0, 0], pointers = [[], [0, 0, 0]],
             indices = [[], []], values_buf = ([] :: int list)\<rparr> = 0
    \<or> 0 \<in> set (sizes \<lparr>sizes = [2, 0], rev_map = [0, 1], idx = [0, 0], pointers = [[], [0, 0, 0]],
             indices = [[], []], values_buf = ([] :: int list)\<rparr>))
   \<and> verify \<lparr>sizes = [2, 0], rev_map = [0, 1], idx = [0, 0], pointers = [[], [0, 0, 0]],
             indices = [[], []], values_buf = ([] :: int list)\<rparr> = False"
  using verify_rejects_empty_shape
    [of "\<lparr>sizes = [2, 0], rev_map = [0, 1], idx = [0, 0], pointers = [[], [0, 0, 0]],
             indices = [[], []], values_buf = ([] :: int list)\<rparr>"]
  by simp

section \<open>Properties of lexicographic insertion\<close>

lemma lexDiff_loop_Inr:
  "length cursor = rank \<Longrightarrow> length ix = rank \<Longrightarrow>
   lexOrder (drop r ix) (drop r cursor) \<Longrightarrow>
   \<exists>k. r \<le> k \<and> k < rank \<and> lexDiff_loop cursor ix r rank = Inr k"
proof (induction cursor ix r rank rule: lexDiff_loop.induct)
  case (1 cursor ix r rank)
  show ?case
  proof (cases "r < rank")
    case False
    with "1.prems" show ?thesis by simp
  next
    case True
    with "1.prems" have dc: "drop r cursor = cursor ! r # drop (Suc r) cursor"
      and di: "drop r ix = ix ! r # drop (Suc r) ix"
      by (simp_all add: Cons_nth_drop_Suc)
    show ?thesis
    proof (cases "ix ! r < cursor ! r")
      case gt: True
      with True show ?thesis by (auto simp: lexDiff_loop.simps [of cursor ix r rank])
    next
      case ngt: False
      with "1.prems"(3) dc di have eq: "cursor ! r = ix ! r" and rest: "lexOrder (drop (Suc r) ix) (drop (Suc r) cursor)"
        by (auto split: if_splits)
      from "1.IH" [OF True ngt _ "1.prems"(1,2)] eq rest
      obtain k where "Suc r \<le> k" "k < rank" "lexDiff_loop cursor ix (r + 1) rank = Inr k"
        by auto
      with True ngt eq show ?thesis
        by (auto simp: lexDiff_loop.simps [of cursor ix r rank] intro!: exI [of _ k])
    qed
  qed
qed

lemma lexDiff_loop_Inl:
  "length cursor = rank \<Longrightarrow> length ix = rank \<Longrightarrow>
   \<not> lexOrder (drop r ix) (drop r cursor) \<Longrightarrow>
   lexDiff_loop cursor ix r rank = Inl NonLexicographicInsertion
   \<or> lexDiff_loop cursor ix r rank = Inl DuplicationInsertion"
proof (induction cursor ix r rank rule: lexDiff_loop.induct)
  case (1 cursor ix r rank)
  show ?case
  proof (cases "r < rank")
    case False
    then show ?thesis by (simp add: lexDiff_loop.simps [of cursor ix r rank])
  next
    case True
    with "1.prems" have dc: "drop r cursor = cursor ! r # drop (Suc r) cursor"
      and di: "drop r ix = ix ! r # drop (Suc r) ix"
      by (simp_all add: Cons_nth_drop_Suc)
    from "1.prems"(3) dc di have ngt: "\<not> ix ! r < cursor ! r"
      by (auto split: if_splits)
    show ?thesis
    proof (cases "cursor ! r = ix ! r")
      case eq: True
      with "1.prems"(3) dc di have "\<not> lexOrder (drop (Suc r) ix) (drop (Suc r) cursor)"
        by simp
      with "1.IH" [OF True ngt eq "1.prems"(1,2)] True ngt eq show ?thesis
        by (simp add: lexDiff_loop.simps [of cursor ix r rank])
    next
      case False
      with True ngt show ?thesis
        by (simp add: lexDiff_loop.simps [of cursor ix r rank])
    qed
  qed
qed




lemma endDim_frame:
  "endDim szs t d = Inr t' \<longrightarrow> idx t' = idx t \<and> sizes t' = sizes t"
  and endDim_dense_frame:
  "endDim_dense szs t d full sz = Inr t'' \<longrightarrow> idx t'' = idx t \<and> sizes t'' = sizes t"
proof (induction szs t d and szs t d full sz arbitrary: t' and t'' rule: endDim_endDim_dense.induct)
  case (1 szs t d)
  show ?case
  proof
    assume a: "endDim szs t d = Inr t'"
    show "idx t' = idx t \<and> sizes t' = sizes t"
    proof (cases "d < length szs \<and> \<not> isCompressedDim t d")
      case True
      with a have "endDim_dense szs t d 0 (szs ! d) = Inr t'"
        by (simp add: endDim.simps [of szs t d])
      with "1.IH" [of t'] True show ?thesis by simp
    next
      case False
      with a show ?thesis
        by (auto simp: endDim.simps [of szs t d] split: if_splits)
    qed
  qed
next
  case (2 szs t d full sz)
  show ?case
  proof
    assume a: "endDim_dense szs t d full sz = Inr t''"
    show "idx t'' = idx t \<and> sizes t'' = sizes t"
    proof (cases "full < sz \<and> d < length szs")
      case False
      with a show ?thesis
        by (auto simp: endDim_dense.simps [of szs t d full sz] split: if_splits)
    next
      case True
      show ?thesis
      proof (cases "endDim szs t (d + 1)")
        case (Inl e)
        with a True show ?thesis by (simp add: endDim_dense.simps [of szs t d full sz])
      next
        case (Inr t1)
        with a True have t2: "endDim_dense szs t1 d (full + 1) sz = Inr t''"
          by (simp add: endDim_dense.simps [of szs t d full sz])
        from "2.IH"(1) [of t1] True Inr have "idx t1 = idx t \<and> sizes t1 = sizes t" by simp
        moreover from "2.IH"(2) [OF _ _ Inr, of t''] True t2
        have "idx t'' = idx t1 \<and> sizes t'' = sizes t1" by simp
        ultimately show ?thesis by simp
      qed
    qed
  qed
qed


lemma endPath_loop_frame:
  "endPath_loop szs t diff i = Inr t' \<Longrightarrow> idx t' = idx t \<and> sizes t' = sizes t"
proof (induction szs t diff i rule: endPath_loop.induct)
  case (1 szs t diff i)
  show ?case
  proof (cases "i < length szs - diff")
    case False
    with "1.prems" show ?thesis by (simp add: endPath_loop.simps [of szs t diff i])
  next
    case True
    let ?d = "length szs - i - 1"
    let ?step = "if isCompressedDim t ?d then
                 Inr (t\<lparr>pointers := (pointers t)[?d := pointers t ! ?d @ [length (indices t ! ?d)]]\<rparr>)
               else endDim_dense szs t ?d (idx t ! ?d + 1) (szs ! ?d)"
    from True have unf: "endPath_loop szs t diff i = (case ?step of Inl e \<Rightarrow> Inl e
         | Inr t1 \<Rightarrow> endPath_loop szs t1 diff (i + 1))"
      by (subst endPath_loop.simps) (simp add: Let_def)
    show ?thesis
    proof (cases ?step)
      case (Inl e)
      from "1.prems" show ?thesis unfolding unf Inl by simp
    next
      case (Inr t1)
      from "1.prems" have t2: "endPath_loop szs t1 diff (i + 1) = Inr t'"
        unfolding unf Inr by simp
      from Inr have "idx t1 = idx t \<and> sizes t1 = sizes t"
        using endDim_dense_frame [of szs t ?d "idx t ! ?d + 1" "szs ! ?d" t1]
        by (cases "isCompressedDim t ?d") auto
      moreover from "1.IH" [OF True refl Inr t2] have "idx t' = idx t1 \<and> sizes t' = sizes t1" .
      ultimately show ?thesis by simp
    qed
  qed
qed

lemma insPath_loop_idx:
  "insPath_loop szs t cursor d tp = Inr t' \<Longrightarrow> length (idx t) = length szs \<Longrightarrow>
   length cursor = length szs \<Longrightarrow> d \<le> length szs \<Longrightarrow>
   idx t' = take d (idx t) @ drop d cursor \<and> sizes t' = sizes t"
proof (induction szs t cursor d tp rule: insPath_loop.induct)
  case (1 szs t cursor d tp)
  show ?case
  proof (cases "d < length szs")
    case False
    with "1.prems" show ?thesis by (simp add: insPath_loop.simps [of szs t cursor d tp])
  next
    case True
    let ?i = "cursor ! d"
    let ?step = "if isCompressedDim t d then
                 Inr (t\<lparr>indices := (indices t)[d := indices t ! d @ [?i]]\<rparr>)
               else endDim_dense szs t d tp ?i"
    from True have unf: "insPath_loop szs t cursor d tp = (case ?step of Inl e \<Rightarrow> Inl e
         | Inr t1 \<Rightarrow> insPath_loop szs (t1\<lparr>idx := (idx t1)[d := ?i]\<rparr>) cursor (d + 1) 0)"
      by (subst insPath_loop.simps) (simp add: Let_def)
    show ?thesis
    proof (cases ?step)
      case (Inl e)
      from "1.prems"(1) show ?thesis unfolding unf Inl by simp
    next
      case (Inr t1)
      from "1.prems"(1) have t2: "insPath_loop szs (t1\<lparr>idx := (idx t1)[d := ?i]\<rparr>) cursor (d + 1) 0 = Inr t'"
        unfolding unf Inr by simp
      from Inr have f1: "idx t1 = idx t \<and> sizes t1 = sizes t"
        using endDim_dense_frame [of szs t d tp ?i t1]
        by (cases "isCompressedDim t d") auto
      from "1.IH" [OF True refl Inr t2] f1 "1.prems" True
      have "idx t' = take (d + 1) ((idx t)[d := ?i]) @ drop (d + 1) cursor \<and> sizes t' = sizes t"
        by simp
      moreover from True "1.prems" have "take (d + 1) ((idx t)[d := ?i]) = take d (idx t) @ [?i]"
        by (simp add: take_Suc_conv_app_nth)
      moreover from True "1.prems" have "drop d cursor = ?i # drop (d + 1) cursor"
        by (simp add: Cons_nth_drop_Suc)
      ultimately show ?thesis by simp
    qed
  qed
qed

lemma lexDiff_loop_prefix:
  "lexDiff_loop cursor ix r rank = Inr k \<Longrightarrow> length cursor = rank \<Longrightarrow> length ix = rank \<Longrightarrow>
   take r cursor = take r ix \<Longrightarrow> k < rank \<and> take k cursor = take k ix"
proof (induction cursor ix r rank rule: lexDiff_loop.induct)
  case (1 cursor ix r rank)
  show ?case
  proof (cases "r < rank")
    case False
    with "1.prems" show ?thesis by (simp add: lexDiff_loop.simps [of cursor ix r rank])
  next
    case True
    show ?thesis
    proof (cases "ix ! r < cursor ! r")
      case gt: True
      with True "1.prems" show ?thesis
        by (auto simp: lexDiff_loop.simps [of cursor ix r rank])
    next
      case ngt: False
      with True "1.prems"(1) have eq: "cursor ! r = ix ! r"
        and nxt: "lexDiff_loop cursor ix (r + 1) rank = Inr k"
        by (auto simp: lexDiff_loop.simps [of cursor ix r rank] split: if_splits)
      from True "1.prems" eq have "take (r + 1) cursor = take (r + 1) ix"
        by (simp add: take_Suc_conv_app_nth)
      with "1.IH" [OF True ngt eq nxt "1.prems"(2,3)] show ?thesis by simp
    qed
  qed
qed

lemma lexInsert_idx:
  assumes "lexInsert t cursor v = Inr t'" "length cursor = getRank t" "length (idx t) = getRank t"
  shows "idx t' = cursor \<and> values_buf t' \<noteq> [] \<and> getRank t' = getRank t"
proof (cases "values_buf t = []")
  case True
  with assms(1) obtain t1 where "insPath_loop (sizes t) t cursor 0 0 = Inr t1"
    and "t' = t1\<lparr>values_buf := values_buf t1 @ [v]\<rparr>"
    by (auto simp: lexInsert_def insPath_def split: if_splits sum.splits)
  with insPath_loop_idx [of "sizes t" t cursor 0 0 t1] assms(2,3) show ?thesis
    by (simp add: getRank_def)
next
  case False
  with assms(1) obtain diff t1 t2 where d: "lexDiff t cursor = Inr diff"
    and e: "endPath_loop (sizes t) t (diff + 1) 0 = Inr t1"
    and i: "insPath_loop (sizes t1) t1 cursor diff (idx t1 ! diff + 1) = Inr t2"
    and t': "t' = t2\<lparr>values_buf := values_buf t2 @ [v]\<rparr>"
    by (auto simp: lexInsert_def insPath_def endPath_def split: if_splits sum.splits)
  from d assms(2,3) have k: "diff < getRank t" "take diff cursor = take diff (idx t)"
    using lexDiff_loop_prefix [of cursor "idx t" 0 "getRank t" diff]
    by (simp_all add: lexDiff_def)
  from endPath_loop_frame [OF e] have f: "idx t1 = idx t" "sizes t1 = sizes t" by simp_all
  from insPath_loop_idx [OF i] f assms(2,3) k
  have "idx t2 = take diff (idx t) @ drop diff cursor \<and> sizes t2 = sizes t"
    by (simp add: getRank_def)
  with k t' show ?thesis
    by (simp add: getRank_def flip: k(2))
qed


lemma endDim_total:
  "d \<le> length szs \<longrightarrow> (\<exists>t'. endDim szs t d = Inr t')"
  and endDim_dense_total:
  "d < length szs \<longrightarrow> (\<exists>t'. endDim_dense szs t d full sz = Inr t')"
proof (induction szs t d and szs t d full sz rule: endDim_endDim_dense.induct)
  case (1 szs t d)
  show ?case
  proof
    assume le: "d \<le> length szs"
    show "\<exists>t'. endDim szs t d = Inr t'"
    proof (cases "d < length szs \<and> \<not> isCompressedDim t d")
      case True
      with "1.IH" obtain t' where "endDim_dense szs t d 0 (szs ! d) = Inr t'" by auto
      with True show ?thesis by (simp add: endDim.simps [of szs t d])
    next
      case False
      with le show ?thesis by (auto simp: endDim.simps [of szs t d])
    qed
  qed
next
  case (2 szs t d full sz)
  show ?case
  proof
    assume lt: "d < length szs"
    show "\<exists>t'. endDim_dense szs t d full sz = Inr t'"
    proof (cases "full < sz")
      case False
      then show ?thesis by (simp add: endDim_dense.simps [of szs t d full sz])
    next
      case True
      from "2.IH"(1) [OF True lt] lt obtain t1 where t1: "endDim szs t (d + 1) = Inr t1" by auto
      from "2.IH"(2) [OF True lt t1] lt obtain t2 where "endDim_dense szs t1 d (full + 1) sz = Inr t2"
        by auto
      with True lt t1 show ?thesis by (simp add: endDim_dense.simps [of szs t d full sz])
    qed
  qed
qed

lemma endPath_loop_total: "\<exists>t'. endPath_loop szs t diff i = Inr t'"
proof (induction szs t diff i rule: endPath_loop.induct)
  case (1 szs t diff i)
  show ?case
  proof (cases "i < length szs - diff")
    case False
    then show ?thesis by (simp add: endPath_loop.simps [of szs t diff i])
  next
    case True
    let ?d = "length szs - i - 1"
    let ?step = "if isCompressedDim t ?d then
                 Inr (t\<lparr>pointers := (pointers t)[?d := pointers t ! ?d @ [length (indices t ! ?d)]]\<rparr>)
               else endDim_dense szs t ?d (idx t ! ?d + 1) (szs ! ?d)"
    from True have unf: "endPath_loop szs t diff i = (case ?step of Inl e \<Rightarrow> Inl e
         | Inr t1 \<Rightarrow> endPath_loop szs t1 diff (i + 1))"
      by (subst endPath_loop.simps) (simp add: Let_def)
    from True have "?d < length szs" by simp
    with endDim_dense_total [of ?d szs t "idx t ! ?d + 1" "szs ! ?d"]
    obtain t1 where t1: "?step = Inr t1" by (cases "isCompressedDim t ?d") auto
    from "1.IH" [OF True refl t1] obtain t2 where "endPath_loop szs t1 diff (i + 1) = Inr t2" ..
    then show ?thesis unfolding unf t1 by simp
  qed
qed

lemma insPath_loop_total: "\<exists>t'. insPath_loop szs t cursor d tp = Inr t'"
proof (induction szs t cursor d tp rule: insPath_loop.induct)
  case (1 szs t cursor d tp)
  show ?case
  proof (cases "d < length szs")
    case False
    then show ?thesis by (simp add: insPath_loop.simps [of szs t cursor d tp])
  next
    case True
    let ?i = "cursor ! d"
    let ?step = "if isCompressedDim t d then
                 Inr (t\<lparr>indices := (indices t)[d := indices t ! d @ [?i]]\<rparr>)
               else endDim_dense szs t d tp ?i"
    from True have unf: "insPath_loop szs t cursor d tp = (case ?step of Inl e \<Rightarrow> Inl e
         | Inr t1 \<Rightarrow> insPath_loop szs (t1\<lparr>idx := (idx t1)[d := ?i]\<rparr>) cursor (d + 1) 0)"
      by (subst insPath_loop.simps) (simp add: Let_def)
    from True endDim_dense_total [of d szs t tp ?i]
    obtain t1 where t1: "?step = Inr t1" by (cases "isCompressedDim t d") auto
    from "1.IH" [OF True refl t1]
    obtain t2 where "insPath_loop szs (t1\<lparr>idx := (idx t1)[d := ?i]\<rparr>) cursor (d + 1) 0 = Inr t2" ..
    then show ?thesis unfolding unf t1 by simp
  qed
qed

lemma lexOrder_total:
  "length a = length b \<Longrightarrow> (\<not> lexOrder a b) = (a = b \<or> lexOrder b a)"
  by (induction a b rule: list_induct2) auto

text \<open>
  C8: on a tensor that already stores a value, \<open>lexInsert\<close> with a cursor equal to or
  lexicographically below the index cursor \<open>idx\<close> (the cursor of the previous insertion)
  fails the assertion "non-lexicographic insertion" or "duplication insertion" and
  returns no tensor; with a cursor strictly above it, \<open>lexDiff\<close> returns a dimension
  below the rank, the insertion succeeds, and \<open>idx\<close> becomes the new cursor.
\<close>

theorem lexInsert_requires_increasing_cursor:
  assumes "values_buf t \<noteq> []" "length cursor = getRank t" "length (idx t) = getRank t"
  shows "(cursor = idx t \<or> lexOrder cursor (idx t) \<longrightarrow>
            lexInsert t cursor v = Inl NonLexicographicInsertion
          \<or> lexInsert t cursor v = Inl DuplicationInsertion)
       \<and> (lexOrder (idx t) cursor \<longrightarrow>
            (\<exists>r < getRank t. lexDiff t cursor = Inr r)
          \<and> (\<exists>t'. lexInsert t cursor v = Inr t' \<and> idx t' = cursor))"
proof (intro conjI impI)
  assume "cursor = idx t \<or> lexOrder cursor (idx t)"
  with assms have "\<not> lexOrder (drop 0 (idx t)) (drop 0 cursor)"
    by (auto simp: lexOrder_total)
  from lexDiff_loop_Inl [OF assms(2,3) this] assms(1)
  show "lexInsert t cursor v = Inl NonLexicographicInsertion
          \<or> lexInsert t cursor v = Inl DuplicationInsertion"
    by (auto simp: lexInsert_def lexDiff_def)
next
  assume lt: "lexOrder (idx t) cursor"
  then have "lexOrder (drop 0 (idx t)) (drop 0 cursor)" by simp
  from lexDiff_loop_Inr [OF assms(2,3) this]
  obtain r where r: "r < getRank t" "lexDiff t cursor = Inr r"
    by (auto simp: lexDiff_def)
  then show "\<exists>r < getRank t. lexDiff t cursor = Inr r" by blast
  from endPath_loop_total obtain t1 where t1: "endPath_loop (sizes t) t (r + 1) 0 = Inr t1" by blast
  from endPath_loop_frame [OF t1] have f: "sizes t1 = sizes t" by simp
  from insPath_loop_total
  obtain t2 where t2: "insPath_loop (sizes t1) t1 cursor r (idx t1 ! r + 1) = Inr t2" by blast
  from assms(1) r t1 t2 f
  have ok: "lexInsert t cursor v = Inr (t2\<lparr>values_buf := values_buf t2 @ [v]\<rparr>)"
    by (simp add: lexInsert_def endPath_def insPath_def getRank_def)
  with lexInsert_idx [OF ok assms(2,3)]
  show "\<exists>t'. lexInsert t cursor v = Inr t' \<and> idx t' = cursor" by simp
qed


theorem lexInsert_requires_increasing_cursor_witness:
  "values_buf (\<lparr>sizes = [2, 3], rev_map = [0, 1], idx = [0, 1], pointers = [[0], [0]],
      indices = [[0], [1]], values_buf = [5 :: int]\<rparr>) \<noteq> []
   \<and> length [0, 1 :: nat] = getRank (\<lparr>sizes = [2, 3], rev_map = [0, 1], idx = [0, 1], pointers = [[0], [0]],
      indices = [[0], [1]], values_buf = [5 :: int]\<rparr>)
   \<and> length (idx (\<lparr>sizes = [2, 3], rev_map = [0, 1], idx = [0, 1], pointers = [[0], [0]],
      indices = [[0], [1]], values_buf = [5 :: int]\<rparr>)) = getRank (\<lparr>sizes = [2, 3], rev_map = [0, 1], idx = [0, 1], pointers = [[0], [0]],
      indices = [[0], [1]], values_buf = [5 :: int]\<rparr>)
   \<and> ([0, 1] = idx (\<lparr>sizes = [2, 3], rev_map = [0, 1], idx = [0, 1], pointers = [[0], [0]],
      indices = [[0], [1]], values_buf = [5 :: int]\<rparr>) \<or> lexOrder [0, 1] (idx (\<lparr>sizes = [2, 3], rev_map = [0, 1], idx = [0, 1], pointers = [[0], [0]],
      indices = [[0], [1]], values_buf = [5 :: int]\<rparr>)))
   \<and> lexInsert (\<lparr>sizes = [2, 3], rev_map = [0, 1], idx = [0, 1], pointers = [[0], [0]],
      indices = [[0], [1]], values_buf = [5 :: int]\<rparr>) [0, 1] 7 = Inl DuplicationInsertion
   \<and> lexOrder (idx (\<lparr>sizes = [2, 3], rev_map = [0, 1], idx = [0, 1], pointers = [[0], [0]],
      indices = [[0], [1]], values_buf = [5 :: int]\<rparr>)) [1, 0]
   \<and> (\<exists>t'. lexInsert (\<lparr>sizes = [2, 3], rev_map = [0, 1], idx = [0, 1], pointers = [[0], [0]],
      indices = [[0], [1]], values_buf = [5 :: int]\<rparr>) [1, 0] 7 = Inr t' \<and> idx t' = [1, 0])"
  using lexInsert_requires_increasing_cursor [of "(\<lparr>sizes = [2, 3], rev_map = [0, 1], idx = [0, 1], pointers = [[0], [0]],
      indices = [[0], [1]], values_buf = [5 :: int]\<rparr>)" "[0, 1]" 7]
    lexInsert_requires_increasing_cursor [of "(\<lparr>sizes = [2, 3], rev_map = [0, 1], idx = [0, 1], pointers = [[0], [0]],
      indices = [[0], [1]], values_buf = [5 :: int]\<rparr>)" "[1, 0]" 7]
  by (simp add: getRank_def lexInsert_def lexDiff_def lexDiff_loop.simps)

section \<open>Duplication\<close>

text \<open>
  C6: \<open>dup\<close> returns a new object whose \<open>sizes\<close>, \<open>rev_map\<close>, pointer, index and value
  buffers are copies of the original's, at a handle different from the original's; a
  mutation of either object through its handle leaves every buffer of the other as it
  was.
\<close>

theorem dup_independent:
  assumes "this < length h" and "dup h this = (p, h')"
  shows "p \<noteq> this \<and> p < length h' \<and> h' ! this = h ! this
       \<and> sizes (h' ! p) = sizes (h ! this) \<and> rev_map (h' ! p) = rev_map (h ! this)
       \<and> pointers (h' ! p) = pointers (h ! this) \<and> indices (h' ! p) = indices (h ! this)
       \<and> values_buf (h' ! p) = values_buf (h ! this)
       \<and> mutate_at h' p m ! this = h ! this
       \<and> mutate_at h' this m ! p = h' ! p"
proof -
  from assms(2) have p: "p = length h" and h': "h' = h @ [SparseTensorStorage_copy (h ! this)]"
    by (simp_all add: dup_def)
  from assms(1) p have ne: "p \<noteq> this" by simp
  from assms(1) h' have same: "h' ! this = h ! this" by (simp add: nth_append)
  from p h' have new: "h' ! p = SparseTensorStorage_copy (h ! this)" by simp
  from ne same have m1: "mutate_at h' p m ! this = h ! this"
    by (simp add: mutate_at_def)
  from ne have m2: "mutate_at h' this m ! p = h' ! p"
    by (simp add: mutate_at_def)
  from ne p h' same new m1 m2 show ?thesis
    by (simp add: SparseTensorStorage_copy_def)
qed

theorem dup_independent_witness:
  "(0::nat) < length [\<lparr>sizes = [2, 2], rev_map = [0, 1], idx = [0, 0], pointers = [[], [0, 1, 2]],
        indices = [[], [0, 1]], values_buf = [3, 4 :: int]\<rparr>]
   \<and> dup [\<lparr>sizes = [2, 2], rev_map = [0, 1], idx = [0, 0], pointers = [[], [0, 1, 2]],
        indices = [[], [0, 1]], values_buf = [3, 4 :: int]\<rparr>] 0
      = (1, [\<lparr>sizes = [2, 2], rev_map = [0, 1], idx = [0, 0], pointers = [[], [0, 1, 2]],
               indices = [[], [0, 1]], values_buf = [3, 4]\<rparr>,
             \<lparr>sizes = [2, 2], rev_map = [0, 1], idx = [], pointers = [[], [0, 1, 2]],
               indices = [[], [0, 1]], values_buf = [3, 4]\<rparr>])
   \<and> mutate_at [\<lparr>sizes = [2, 2], rev_map = [0, 1], idx = [0, 0], pointers = [[], [0, 1, 2]],
               indices = [[], [0, 1]], values_buf = [3, 4 :: int]\<rparr>,
             \<lparr>sizes = [2, 2], rev_map = [0, 1], idx = [], pointers = [[], [0, 1, 2]],
               indices = [[], [0, 1]], values_buf = [3, 4]\<rparr>] 1 (Store_value 0 9) ! 0
      = \<lparr>sizes = [2, 2], rev_map = [0, 1], idx = [0, 0], pointers = [[], [0, 1, 2]],
               indices = [[], [0, 1]], values_buf = [3, 4]\<rparr>"
proof -
  let ?t = "\<lparr>sizes = [2, 2], rev_map = [0, 1], idx = [0, 0], pointers = [[], [0, 1, 2]],
        indices = [[], [0, 1]], values_buf = [3, 4 :: int]\<rparr>"
  have a: "(0::nat) < length [?t]" by simp
  have b: "dup [?t] 0 = (1, [?t, ?t\<lparr>idx := []\<rparr>])"
    by (simp add: dup_def SparseTensorStorage_copy_def)
  from dup_independent [OF a b, of "Store_value 0 9"] a b show ?thesis by simp
qed

section \<open>num\_vals\<close>

text \<open>
  C7: for a vector (pointer buffer of two entries) and for a matrix of either layout
  (pointer buffer of one entry more than the extent of the dense dimension),
  \<open>num_vals\<close> is the last entry of the pointer buffer of the compressed dimension, cast
  to \<^verbatim>\<open>index\<close>.
\<close>

theorem num_vals_last_pointer:
  assumes "has_type t ty"
    and "length (pointers t ! (tt_rank ty - 1)) = (if tt_rank ty = 1 then 2 else sizes t ! 0 + 1)"
  shows "num_vals ty t = Some (index_cast (last (pointers t ! (tt_rank ty - 1))))"
proof -
  let ?ptrs = "pointers t ! (tt_rank ty - 1)"
  from assms(2) have "?ptrs \<noteq> []" by (auto split: if_splits)
  then have lst: "last ?ptrs = ?ptrs ! (length ?ptrs - 1)" by (rule last_conv_nth)
  show ?thesis
  proof (cases "tt_rank ty = 1")
    case True
    with assms(2) lst show ?thesis
      by (simp add: num_vals_def load_def)
  next
    case False
    with assms(1) have r: "tt_rank ty = 2"
      and rv: "rev_map t = (if tt_layout ty = RowMajor then [0, 1] else [1, 0])"
      by (simp_all add: has_type_def)
    from rv have "(if hasRowOrdering ty then dim t 0 else dim t 1) = sizes t ! 0"
      by (simp add: hasRowOrdering_def dim_def)
    with r assms(2) lst show ?thesis
      by (simp add: num_vals_def load_def Let_def)
  qed
qed

theorem num_vals_last_pointer_witness:
  "has_type \<lparr>sizes = [4, 2], rev_map = [1, 0], idx = [0, 0], pointers = [[], [0, 1, 2, 3, 4]],
        indices = [[], [1, 0, 0, 1]], values_buf = [7, 4, 5, 8 :: int]\<rparr>
     \<lparr>tt_rank = 2, tt_layout = ColumnMajor, pointerBitWidth = 64, indexBitWidth = 64\<rparr>
   \<and> num_vals \<lparr>tt_rank = 2, tt_layout = ColumnMajor, pointerBitWidth = 64, indexBitWidth = 64\<rparr>
        \<lparr>sizes = [4, 2], rev_map = [1, 0], idx = [0, 0], pointers = [[], [0, 1, 2, 3, 4]],
        indices = [[], [1, 0, 0, 1]], values_buf = [7, 4, 5, 8 :: int]\<rparr> = Some 4"
  using num_vals_last_pointer
    [of "\<lparr>sizes = [4, 2], rev_map = [1, 0], idx = [0, 0], pointers = [[], [0, 1, 2, 3, 4]],
        indices = [[], [1, 0, 0, 1]], values_buf = [7, 4, 5, 8 :: int]\<rparr>"
        "\<lparr>tt_rank = 2, tt_layout = ColumnMajor, pointerBitWidth = 64, indexBitWidth = 64\<rparr>"]
  by (simp add: has_type_def getRank_def index_cast_def)

section \<open>convert\_layout\<close>

text \<open>
  C10: when the requested type is the type of the input, \<open>convert_layout\<close> returns the
  handle of the input tensor itself and leaves the heap as it is: no object is
  allocated and no buffer is written.
\<close>

theorem convert_layout_same_type:
  "convert_layout h inputTensor ty ty = Some (inputTensor, h)"
  by (simp add: convert_layout_def)

theorem convert_layout_same_type_witness:
  "convert_layout
     [\<lparr>sizes = [2, 2], rev_map = [0, 1], idx = [0, 0], pointers = [[], [0, 1, 2]],
        indices = [[], [0, 1]], values_buf = [3, 4 :: int]\<rparr>] 0
     \<lparr>tt_rank = 2, tt_layout = RowMajor, pointerBitWidth = 64, indexBitWidth = 64\<rparr>
     \<lparr>tt_rank = 2, tt_layout = RowMajor, pointerBitWidth = 64, indexBitWidth = 64\<rparr>
   = Some (0, [\<lparr>sizes = [2, 2], rev_map = [0, 1], idx = [0, 0], pointers = [[], [0, 1, 2]],
        indices = [[], [0, 1]], values_buf = [3, 4 :: int]\<rparr>])"
  by (rule convert_layout_same_type)

section \<open>Correctness of the layout conversion\<close>

lemma count_list_filter: "count_list xs c = length (filter (\<lambda>x. x = c) xs)"
  by (induction xs) auto

lemma cl_start_Suc: "cl_start Aj (Suc c) = cl_start Aj c + count_list Aj c"
  unfolding cl_start_def count_list_filter
  by (induction Aj) auto

lemma cl_start_0 [simp]: "cl_start Aj 0 = 0"
  by (simp add: cl_start_def)

lemma cl_start_mono: "c \<le> c' \<Longrightarrow> cl_start Aj c \<le> cl_start Aj c'"
  unfolding cl_start_def
  by (induction Aj) auto

lemma cl_start_top: "\<forall>x\<in>set Aj. x < n \<Longrightarrow> cl_start Aj n = length Aj"
  by (simp add: cl_start_def)

lemma count_take_le: "count_list (take j xs) c \<le> count_list xs c"
proof -
  have "count_list xs c = count_list (take j xs) c + count_list (drop j xs) c"
    by (metis append_take_drop_id count_list_append)
  then show ?thesis by simp
qed

lemma count_take_Suc:
  "j < length xs \<Longrightarrow> count_list (take (Suc j) xs) c = count_list (take j xs) c + (if xs ! j = c then 1 else 0)"
  by (simp add: take_Suc_conv_app_nth)

lemma count_take_mono: "i \<le> j \<Longrightarrow> count_list (take i xs) c \<le> count_list (take j xs) c"
proof -
  assume "i \<le> j"
  then have "take i xs = take i (take j xs)" by (simp add: min_def)
  then show ?thesis using count_take_le [of i "take j xs" c] by simp
qed

lemma cl_dest_range:
  assumes "j < length Aj"
  shows "cl_start Aj (Aj ! j) \<le> cl_dest Aj j" "cl_dest Aj j < cl_start Aj (Suc (Aj ! j))"
proof -
  show "cl_start Aj (Aj ! j) \<le> cl_dest Aj j" by (simp add: cl_dest_def)
  from assms have "count_list (take (Suc j) Aj) (Aj ! j) = count_list (take j Aj) (Aj ! j) + 1"
    by (simp add: count_take_Suc)
  with count_take_le [of "Suc j" Aj "Aj ! j"]
  have "count_list (take j Aj) (Aj ! j) < count_list Aj (Aj ! j)" by simp
  then show "cl_dest Aj j < cl_start Aj (Suc (Aj ! j))"
    by (simp add: cl_dest_def cl_start_Suc)
qed

lemma cl_range_unique:
  assumes "cl_start Aj c \<le> k" "k < cl_start Aj (Suc c)"
    and "cl_start Aj c' \<le> k" "k < cl_start Aj (Suc c')"
  shows "c = c'"
proof (rule ccontr)
  assume "c \<noteq> c'"
  then consider "Suc c \<le> c'" | "Suc c' \<le> c" by linarith
  then show False
  proof cases
    case 1
    from cl_start_mono [OF 1, of Aj] assms show False by simp
  next
    case 2
    from cl_start_mono [OF 2, of Aj] assms show False by simp
  qed
qed

lemma cl_dest_inj:
  assumes "i < j" "j < length Aj"
  shows "cl_dest Aj i \<noteq> cl_dest Aj j"
proof (cases "Aj ! i = Aj ! j")
  case True
  from assms have "count_list (take (Suc i) Aj) (Aj ! i) = count_list (take i Aj) (Aj ! i) + 1"
    by (simp add: count_take_Suc)
  moreover from assms have "count_list (take (Suc i) Aj) (Aj ! i) \<le> count_list (take j Aj) (Aj ! i)"
    by (intro count_take_mono) simp
  ultimately show ?thesis using True by (simp add: cl_dest_def)
next
  case False
  from assms have i: "i < length Aj" by simp
  show ?thesis
  proof
    assume eq: "cl_dest Aj i = cl_dest Aj j"
    from cl_dest_range [OF i] cl_dest_range [OF assms(2)] eq
    have "Aj ! i = Aj ! j" by (intro cl_range_unique [of Aj _ "cl_dest Aj i"]) simp_all
    with False show False by simp
  qed
qed

lemma cl_dest_inj_on: "inj_on (cl_dest Aj) {..<length Aj}"
proof (rule inj_onI)
  fix i j assume "i \<in> {..<length Aj}" "j \<in> {..<length Aj}" "cl_dest Aj i = cl_dest Aj j"
  then show "i = j"
    using cl_dest_inj [of i j Aj] cl_dest_inj [of j i Aj]
    by (cases i j rule: linorder_cases) auto
qed

lemma cl_dest_bound:
  assumes "\<forall>x\<in>set Aj. x < n" "j < length Aj"
  shows "cl_dest Aj j < length Aj"
proof -
  from assms have "Suc (Aj ! j) \<le> n" by (simp add: Suc_le_eq)
  from cl_start_mono [OF this, of Aj] cl_start_top [OF assms(1)] cl_dest_range(2) [OF assms(2)]
  show ?thesis by simp
qed

lemma cl_dest_surj:
  assumes "\<forall>x\<in>set Aj. x < n"
  shows "cl_dest Aj ` {..<length Aj} = {..<length Aj}"
proof (rule endo_inj_surj)
  show "finite {..<length Aj}" by simp
  show "cl_dest Aj ` {..<length Aj} \<subseteq> {..<length Aj}"
    using cl_dest_bound [OF assms] by auto
  show "inj_on (cl_dest Aj) {..<length Aj}" by (rule cl_dest_inj_on)
qed

lemma cl_init_length [simp]: "length (cl_init n p) = length p"
  unfolding cl_init_def by (induction n) simp_all

lemma cl_init_nth: "c < length p \<Longrightarrow> cl_init n p ! c = (if c < n then 0 else p ! c)"
proof (induction n)
  case 0
  then show ?case by (simp add: cl_init_def)
next
  case (Suc n)
  have "cl_init (Suc n) p = (cl_init n p)[n := 0]" by (simp add: cl_init_def)
  with Suc show ?case by (auto simp: nth_list_update less_Suc_eq)
qed

lemma cl_count_aux:
  "k \<le> length Aj \<Longrightarrow> \<forall>x\<in>set Aj. x < length p \<Longrightarrow>
   length (fold (\<lambda>k p. let colA = Aj ! k; colB = p ! colA in p[colA := colB + 1]) [0..<k] p) = length p
   \<and> (\<forall>c<length p. fold (\<lambda>k p. let colA = Aj ! k; colB = p ! colA in p[colA := colB + 1]) [0..<k] p ! c
         = p ! c + count_list (take k Aj) c)"
proof (induction k)
  case 0
  then show ?case by simp
next
  case (Suc k)
  then have k: "k < length Aj" and IH: "length (fold (\<lambda>k p. let colA = Aj ! k; colB = p ! colA in p[colA := colB + 1]) [0..<k] p) = length p"
    "\<forall>c<length p. fold (\<lambda>k p. let colA = Aj ! k; colB = p ! colA in p[colA := colB + 1]) [0..<k] p ! c
         = p ! c + count_list (take k Aj) c"
    by simp_all
  from k Suc.prems have "Aj ! k < length p" by simp
  with IH k show ?case
    by (auto simp: Let_def nth_list_update count_take_Suc)
qed

lemma cl_count_length:
  "\<forall>x\<in>set Aj. x < length p \<Longrightarrow> length (cl_count Aj (length Aj) p) = length p"
  using cl_count_aux [of "length Aj" Aj p] by (simp add: cl_count_def)

lemma cl_count_nth:
  "\<forall>x\<in>set Aj. x < length p \<Longrightarrow> c < length p \<Longrightarrow>
   cl_count Aj (length Aj) p ! c = p ! c + count_list Aj c"
  using cl_count_aux [of "length Aj" Aj p] by (simp add: cl_count_def)

lemma cl_cumsum_aux:
  "i \<le> n \<Longrightarrow> length p = Suc n \<Longrightarrow> p ! n = 0 \<Longrightarrow> \<forall>c<n. p ! c = count_list Aj c \<Longrightarrow>
   (let q = fold (\<lambda>i p. let temp = p ! i; cumsum = p ! n in (p[i := cumsum])[n := cumsum + temp]) [0..<i] p
    in length q = Suc n \<and> q ! n = cl_start Aj i
       \<and> (\<forall>c<i. q ! c = cl_start Aj c) \<and> (\<forall>c. i \<le> c \<and> c < n \<longrightarrow> q ! c = count_list Aj c))"
proof (induction i)
  case 0
  then show ?case by simp
next
  case (Suc i)
  then show ?case
    by (auto simp: Let_def nth_list_update cl_start_Suc less_Suc_eq)
qed

lemma cl_cumsum_props:
  assumes "length p = Suc n" "\<forall>c<n. p ! c = count_list Aj c"
  shows "length (cl_cumsum n p) = Suc n"
    and "\<forall>c\<le>n. cl_cumsum n p ! c = cl_start Aj c"
proof -
  let ?p = "p[n := 0]"
  from assms have a: "length ?p = Suc n" "?p ! n = 0" "\<forall>c<n. ?p ! c = count_list Aj c"
    by simp_all
  from cl_cumsum_aux [OF le_refl a]
  show "length (cl_cumsum n p) = Suc n" "\<forall>c\<le>n. cl_cumsum n p ! c = cl_start Aj c"
    by (auto simp: cl_cumsum_def Let_def le_less)
qed

lemma cl_shift_aux:
  "i \<le> n \<Longrightarrow> length p = Suc n \<Longrightarrow> p ! n = 0 \<Longrightarrow>
   (let q = fold (\<lambda>iCol p. let swapTemp = p ! iCol; last = p ! n in (p[iCol := last])[n := swapTemp]) [0..<i] p
    in length q = Suc n \<and> q ! n = (if i = 0 then 0 else p ! (i - 1))
       \<and> (\<forall>c<i. q ! c = (if c = 0 then 0 else p ! (c - 1)))
       \<and> (\<forall>c. i \<le> c \<and> c < n \<longrightarrow> q ! c = p ! c))"
proof (induction i)
  case 0
  then show ?case by simp
next
  case (Suc i)
  then show ?case
    by (auto simp: Let_def nth_list_update less_Suc_eq)
qed

lemma cl_shift_props:
  assumes "length p = Suc n" "\<forall>c<n. p ! c = cl_start Aj (Suc c)" "p ! n = cl_start Aj n"
  shows "length (cl_shift n p) = Suc n"
    and "\<forall>c\<le>n. cl_shift n p ! c = cl_start Aj c"
proof -
  let ?p = "p[n := 0]"
  from assms have a: "length ?p = Suc n" "?p ! n = 0" by simp_all
  from cl_shift_aux [OF le_refl a] assms
  show "length (cl_shift n p) = Suc n"
    by (simp add: cl_shift_def Let_def)
  from cl_shift_aux [OF le_refl a] assms
  show "\<forall>c\<le>n. cl_shift n p ! c = cl_start Aj c"
    by (auto simp: cl_shift_def Let_def nth_list_update le_less)
qed

lemma row_pairs_Suc:
  "row_pairs Ap (Suc m) = row_pairs Ap m @ map (Pair m) [Ap ! m..<Ap ! (Suc m)]"
  by (simp add: row_pairs_def)

lemma cl_copy_flat:
  "cl_copy Ap Aj Ax m s = fold (\<lambda>(r, jj). cl_copy_step Aj Ax r jj) (row_pairs Ap m) s"
proof (induction m)
  case 0
  then show ?case by (simp add: cl_copy_def row_pairs_def)
next
  case (Suc m)
  have "cl_copy Ap Aj Ax (Suc m) s
        = fold (cl_copy_step Aj Ax m) [Ap ! m..<Ap ! (Suc m)] (cl_copy Ap Aj Ax m s)"
    by (simp add: cl_copy_def)
  also have "\<dots> = fold (\<lambda>(r, jj). cl_copy_step Aj Ax r jj) (map (Pair m) [Ap ! m..<Ap ! (Suc m)])
                     (cl_copy Ap Aj Ax m s)"
    by (simp add: fold_map comp_def)
  finally show ?case by (simp add: Suc row_pairs_Suc)
qed

lemma row_pairs_snd:
  "\<forall>r<m. Ap ! r \<le> Ap ! Suc r \<Longrightarrow> Ap ! 0 = 0 \<Longrightarrow> map snd (row_pairs Ap m) = [0..<Ap ! m]"
proof (induction m)
  case 0
  then show ?case by (simp add: row_pairs_def)
next
  case (Suc m)
  then have IH: "map snd (row_pairs Ap m) = [0..<Ap ! m]" and le: "Ap ! m \<le> Ap ! Suc m"
    by simp_all
  from le have "[0..<Ap ! Suc m] = [0..<Ap ! m] @ [Ap ! m..<Ap ! Suc m]"
    using upt_add_eq_append [of 0 "Ap ! m" "Ap ! Suc m - Ap ! m"] by simp
  with IH show ?case by (simp add: row_pairs_Suc comp_def)
qed

lemma row_pairs_fst: "e \<in> set (row_pairs Ap m) \<Longrightarrow> fst e < m"
  by (induction m) (auto simp: row_pairs_Suc row_pairs_def)

lemma row_pairs_set:
  "set (row_pairs Ap m) = {(r, k). r < m \<and> Ap ! r \<le> k \<and> k < Ap ! Suc r}"
  by (auto simp: row_pairs_def)

lemma copy_inv_step:
  assumes inv: "copy_inv Aj Ax es n k s" and k: "k < length Aj" and bound: "\<forall>x\<in>set Aj. x < n"
    and r: "r = fst (es ! k)"
  shows "copy_inv Aj Ax es n (Suc k) (cl_copy_step Aj Ax r k s)"
proof -
  obtain p ix vs where s: "s = (p, ix, vs)" by (cases s) auto
  from k bound have col: "Aj ! k < n" by simp
  from inv s col have dest: "p ! (Aj ! k) = cl_dest Aj k"
    by (simp add: copy_inv_def cl_dest_def)
  from cl_dest_bound [OF bound k] have db: "cl_dest Aj k < length Aj" .
  have ne: "\<forall>j<k. cl_dest Aj k \<noteq> cl_dest Aj j"
    using cl_dest_inj [OF _ k] by metis
  let ?p = "p[Aj ! k := p ! (Aj ! k) + 1]"
  let ?ix = "ix[cl_dest Aj k := r]"
  let ?vs = "vs[cl_dest Aj k := Ax ! k]"
  from s dest have step: "cl_copy_step Aj Ax r k s = (?p, ?ix, ?vs)"
    by (simp add: cl_copy_step_def Let_def)
  from inv s have len: "length p = Suc n" "length ix = length Aj" "length vs = length Aj"
    and pn: "p ! n = cl_start Aj n"
    and pc: "\<forall>c<n. p ! c = cl_start Aj c + count_list (take k Aj) c"
    and old: "\<forall>j<k. ix ! cl_dest Aj j = fst (es ! j) \<and> vs ! cl_dest Aj j = Ax ! j"
    by (simp_all add: copy_inv_def)
  from col pn have 1: "?p ! n = cl_start Aj n" by simp
  from col len pc k have 2: "\<forall>c<n. ?p ! c = cl_start Aj c + count_list (take (Suc k) Aj) c"
    by (auto simp: nth_list_update count_take_Suc)
  have 3: "\<forall>j<Suc k. ?ix ! cl_dest Aj j = fst (es ! j) \<and> ?vs ! cl_dest Aj j = Ax ! j"
  proof (intro allI impI)
    fix j assume "j < Suc k"
    then consider "j = k" | "j < k" by linarith
    then show "?ix ! cl_dest Aj j = fst (es ! j) \<and> ?vs ! cl_dest Aj j = Ax ! j"
    proof cases
      case 1
      with db len r show ?thesis by simp
    next
      case 2
      with ne old show ?thesis by simp
    qed
  qed
  from len 1 2 3 show ?thesis
    unfolding step by (simp add: copy_inv_def)
qed

lemma copy_inv_fold:
  assumes "map snd es = [0..<length Aj]" and bound: "\<forall>x\<in>set Aj. x < n"
    and "copy_inv Aj Ax es n 0 s" and "k \<le> length Aj"
  shows "copy_inv Aj Ax es n k (fold (\<lambda>(r, jj). cl_copy_step Aj Ax r jj) (take k es) s)"
  using assms(4)
proof (induction k)
  case 0
  with assms(3) show ?case by simp
next
  case (Suc k)
  from assms(1) have len: "length es = length Aj"
    by (metis length_map length_upt minus_nat.diff_0)
  with Suc.prems have k: "k < length es" by simp
  from assms(1) k len have "snd (es ! k) = k"
    by (metis add_0 nth_map nth_upt)
  then have ek: "es ! k = (fst (es ! k), k)" by (metis prod.collapse)
  from Suc have IH: "copy_inv Aj Ax es n k (fold (\<lambda>(r, jj). cl_copy_step Aj Ax r jj) (take k es) s)"
    by simp
  from k have "take (Suc k) es = take k es @ [es ! k]" by (rule take_Suc_conv_app_nth)
  then have "fold (\<lambda>(r, jj). cl_copy_step Aj Ax r jj) (take (Suc k) es) s
      = cl_copy_step Aj Ax (fst (es ! k)) k (fold (\<lambda>(r, jj). cl_copy_step Aj Ax r jj) (take k es) s)"
    using \<open>snd (es ! k) = k\<close> by (simp add: case_prod_beta)
  with copy_inv_step [OF IH _ bound refl] k len show ?case by simp
qed

lemma convert_buffers_correct:
  fixes Ax :: "'v list" and vs0 :: "'v list"
  assumes wf: "wf_csr m n Ap Aj Ax"
    and p0: "length p0 = Suc n" and ix0: "length ix0 = length Aj" and vs0: "length vs0 = length Aj"
  defines "s \<equiv> cl_copy Ap Aj Ax m
                 (cl_cumsum n (cl_count Aj (length Aj) (cl_init n p0)), ix0, vs0)"
  shows "wf_csr n m (cl_shift n (fst s)) (fst (snd s)) (snd (snd s))"
    and "set (stored_entries (cl_shift n (fst s)) (fst (snd s)) (snd (snd s)) n)
         = swap_entry ` set (stored_entries Ap Aj Ax m)"
proof -
  let ?es = "row_pairs Ap m"
  let ?p2 = "cl_cumsum n (cl_count Aj (length Aj) (cl_init n p0))"
  from wf have bound: "\<forall>x\<in>set Aj. x < n" and mono: "\<forall>r<m. Ap ! r \<le> Ap ! Suc r"
    and a0: "Ap ! 0 = 0" and am: "Ap ! m = length Aj" and lx: "length Ax = length Aj"
    by (simp_all add: wf_csr_def)
  from row_pairs_snd [OF mono a0] am have snd_es: "map snd ?es = [0..<length Aj]" by simp
  then have len_es: "length ?es = length Aj"
    by (metis length_map length_upt minus_nat.diff_0)
  have es_nth: "?es ! j = (fst (?es ! j), j)" if "j < length Aj" for j
  proof -
    from snd_es that len_es have "snd (?es ! j) = j" by (metis add_0 nth_map nth_upt)
    then show ?thesis by (metis prod.collapse)
  qed
  \<comment> \<open>the pointer histogram and its cumulative sum\<close>
  from bound p0 have b': "\<forall>x\<in>set Aj. x < length (cl_init n p0)" by auto
  have cnt: "\<forall>c<n. cl_count Aj (length Aj) (cl_init n p0) ! c = count_list Aj c"
    using cl_count_nth [OF b'] p0 by (simp add: cl_init_nth)
  from cl_count_length [OF b'] p0 have lc: "length (cl_count Aj (length Aj) (cl_init n p0)) = Suc n"
    by simp
  from cl_cumsum_props [OF lc cnt]
  have l2: "length ?p2 = Suc n" and p2: "\<forall>c\<le>n. ?p2 ! c = cl_start Aj c" by simp_all
  \<comment> \<open>the copy loop\<close>
  from l2 p2 ix0 vs0 have inv0: "copy_inv Aj Ax ?es n 0 (?p2, ix0, vs0)"
    by (simp add: copy_inv_def)
  from copy_inv_fold [OF snd_es bound inv0 le_refl] len_es
  have inv: "copy_inv Aj Ax ?es n (length Aj) s"
    by (simp add: s_def cl_copy_flat)
  obtain p ix vs where s: "s = (p, ix, vs)" by (cases s) auto
  from inv s have lp: "length p = Suc n" and lix: "length ix = length Aj"
    and lvs: "length vs = length Aj" and pn: "p ! n = cl_start Aj n"
    and pc: "\<forall>c<n. p ! c = cl_start Aj (Suc c)"
    and cp: "\<forall>j<length Aj. ix ! cl_dest Aj j = fst (?es ! j) \<and> vs ! cl_dest Aj j = Ax ! j"
    by (simp_all add: copy_inv_def cl_start_Suc)
  from cl_shift_props [OF lp pc pn]
  have lB: "length (cl_shift n p) = Suc n" and B: "\<forall>c\<le>n. cl_shift n p ! c = cl_start Aj c"
    by simp_all
  have surj: "\<exists>j<length Aj. k = cl_dest Aj j" if "k < length Aj" for k
    using cl_dest_surj [OF bound] that by (auto simp: image_iff set_eq_iff)
  have topn: "cl_start Aj n = length Aj" by (rule cl_start_top [OF bound])
  have ixb: "\<forall>x\<in>set ix. x < m"
  proof
    fix x assume "x \<in> set ix"
    then obtain k where k: "k < length Aj" "x = ix ! k" using lix by (auto simp: in_set_conv_nth)
    from surj [OF k(1)] obtain j where j: "j < length Aj" "k = cl_dest Aj j" by blast
    with cp k have "x = fst (?es ! j)" by simp
    moreover from j len_es have "?es ! j \<in> set ?es" by simp
    ultimately show "x < m" using row_pairs_fst by blast
  qed
  show "wf_csr n m (cl_shift n (fst s)) (fst (snd s)) (snd (snd s))"
    using lB B lix lvs ixb topn cl_start_mono [of _ _ Aj]
    by (simp add: wf_csr_def s)
  have Bset: "set (stored_entries (cl_shift n p) ix vs n)
      = {((c, ix ! k), vs ! k) | c k. c < n \<and> cl_start Aj c \<le> k \<and> k < cl_start Aj (Suc c)}"
    using B by (auto simp: stored_entries_def row_pairs_set image_iff Suc_le_eq intro!: exI)
  have Aset: "set (stored_entries Ap Aj Ax m) = {((fst (?es ! j), Aj ! j), Ax ! j) | j. j < length Aj}"
  proof -
    have "set ?es = {(fst (?es ! j), j) | j. j < length Aj}"
    proof -
      have "set ?es = {?es ! j | j. j < length ?es}" by (simp add: set_conv_nth)
      also have "\<dots> = {(fst (?es ! j), j) | j. j < length Aj}"
        using es_nth len_es by (metis (no_types, lifting))
      finally show ?thesis .
    qed
    then show ?thesis by (auto simp: stored_entries_def image_iff intro!: exI)
  qed
  have "{((c, ix ! k), vs ! k) | c k. c < n \<and> cl_start Aj c \<le> k \<and> k < cl_start Aj (Suc c)}
        = swap_entry ` {((fst (?es ! j), Aj ! j), Ax ! j) | j. j < length Aj}" (is "?L = ?R")
  proof (intro set_eqI iffI)
    fix e assume "e \<in> ?L"
    then obtain c k where e: "e = ((c, ix ! k), vs ! k)" and c: "c < n"
      and k1: "cl_start Aj c \<le> k" and k2: "k < cl_start Aj (Suc c)" by blast
    from c have "Suc c \<le> n" by simp
    from cl_start_mono [OF this, of Aj] k2 topn have "k < length Aj" by simp
    from surj [OF this] obtain j where j: "j < length Aj" "k = cl_dest Aj j" by blast
    from cl_dest_range [OF j(1)] j(2) k1 k2 have "Aj ! j = c"
      by (intro cl_range_unique [of Aj _ k]) simp_all
    with cp j e have "e = swap_entry ((fst (?es ! j), Aj ! j), Ax ! j)"
      by (simp add: swap_entry_def)
    with j show "e \<in> ?R" by blast
  next
    fix e assume "e \<in> ?R"
    then obtain j where j: "j < length Aj" and e: "e = ((Aj ! j, fst (?es ! j)), Ax ! j)"
      by (auto simp: swap_entry_def)
    from j bound have "Aj ! j < n" by simp
    moreover note cl_dest_range [OF j]
    moreover from cp j e have "e = ((Aj ! j, ix ! cl_dest Aj j), vs ! cl_dest Aj j)" by simp
    ultimately show "e \<in> ?L" by blast
  qed
  with Aset Bset
  show "set (stored_entries (cl_shift n (fst s)) (fst (snd s)) (snd (snd s)) n)
         = swap_entry ` set (stored_entries Ap Aj Ax m)"
    by (simp add: s)
qed

lemma resize_Nil [simp]: "resize [] n = replicate n 0"
  by (simp add: resize_def)

lemma resize_single: "resize [0] (Suc n) = replicate (Suc n) 0"
  by (simp add: resize_def replicate_append_same)

lemma convert_layout_tensor_eq:
  fixes t :: "('v::zero) SparseTensorStorage"
  assumes wf: "wf_matrix t" and ty: "has_type t ty" and r: "tt_rank ty = 2"
    and flip: "tt_layout ty' \<noteq> tt_layout ty"
  defines "M \<equiv> sizes t ! 0" and "N \<equiv> sizes t ! 1"
  defines "Ap \<equiv> pointers t ! 1" and "Aj \<equiv> indices t ! 1" and "Ax \<equiv> values_buf t"
  defines "s \<equiv> cl_copy Ap Aj Ax M
                 (cl_cumsum N (cl_count Aj (length Aj) (cl_init N (replicate (Suc N) 0))),
                  replicate (length Aj) 0, replicate (length Aj) (0::'v))"
  shows "convert_layout_tensor ty ty' t =
         Some \<lparr>sizes = [N, M],
               rev_map = (if tt_layout ty' = RowMajor then [0, 1] else [1, 0]),
               idx = [0, 0], pointers = [[], cl_shift N (fst s)],
               indices = [[], fst (snd s)], values_buf = snd (snd s)\<rparr>"
proof -
  from wf have ls: "length (sizes t) = 2" and lp: "length (pointers t) = 2"
    and li: "length (indices t) = 2" and csr: "wf_csr M N Ap Aj Ax"
    by (simp_all add: wf_matrix_def M_def N_def Ap_def Aj_def Ax_def)
  from ls obtain a b where sz: "sizes t = [a, b]"
    by (cases "sizes t"; cases "tl (sizes t)") auto
  from ty r have rv: "rev_map t = (if tt_layout ty = RowMajor then [0, 1] else [1, 0])"
    by (simp add: has_type_def)
  from csr have lAp: "length Ap = Suc M" and am: "Ap ! M = length Aj"
    by (simp_all add: wf_csr_def)
  from rv have "(if hasRowOrdering ty then dim t 0 else dim t 1) = M"
    by (simp add: hasRowOrdering_def dim_def M_def)
  with r lAp am have nv: "num_vals ty t = Some (length Aj)"
    by (simp add: num_vals_def load_def Let_def Ap_def index_cast_def)
  have rk: "getRank t = 2" using ls by (simp add: getRank_def)
  show ?thesis
  proof (cases "tt_layout ty")
    case RowMajor
    with flip have o: "tt_layout ty' = ColumnMajor" by (cases "tt_layout ty'") auto
    from RowMajor rv sz have d: "NumRows t = M" "NumCols t = N"
      by (simp_all add: NumRows_def NumCols_def dim_def M_def N_def)
    show ?thesis
      unfolding convert_layout_tensor_def nv
      by (simp add: Let_def hasColumnOrdering_def o d callEmptyLike_def rk sz resize_single
          numeral_2_eq_2 s_def Ap_def Aj_def Ax_def rv RowMajor)
  next
    case ColumnMajor
    with flip have o: "tt_layout ty' = RowMajor" by (cases "tt_layout ty'") auto
    from ColumnMajor rv sz have d: "NumRows t = N" "NumCols t = M"
      by (simp_all add: NumRows_def NumCols_def dim_def M_def N_def)
    show ?thesis
      unfolding convert_layout_tensor_def nv
      by (simp add: Let_def hasColumnOrdering_def o d callEmptyLike_def rk sz resize_single
          numeral_2_eq_2 s_def Ap_def Aj_def Ax_def rv ColumnMajor)
  qed
qed

lemma convert_layout_tensor_correct:
  fixes t :: "('v::zero) SparseTensorStorage"
  assumes wf: "wf_matrix t" and ty: "has_type t ty" and r: "tt_rank ty = 2" and r': "tt_rank ty' = 2"
    and flip: "tt_layout ty' \<noteq> tt_layout ty"
  shows "\<exists>t'. convert_layout_tensor ty ty' t = Some t' \<and> wf_matrix t' \<and> has_type t' ty'
           \<and> set (coo_entries t') = set (coo_entries t)
           \<and> NumRows t' = NumRows t \<and> NumCols t' = NumCols t"
proof -
  let ?M = "sizes t ! 0" and ?N = "sizes t ! 1"
  let ?Ap = "pointers t ! 1" and ?Aj = "indices t ! 1" and ?Ax = "values_buf t"
  let ?s = "cl_copy ?Ap ?Aj ?Ax ?M
                 (cl_cumsum ?N (cl_count ?Aj (length ?Aj) (cl_init ?N (replicate (Suc ?N) 0))),
                  replicate (length ?Aj) 0, replicate (length ?Aj) (0::'v))"
  let ?t' = "\<lparr>sizes = [?N, ?M],
               rev_map = (if tt_layout ty' = RowMajor then [0, 1] else [1, 0]),
               idx = [0, 0], pointers = [[], cl_shift ?N (fst ?s)],
               indices = [[], fst (snd ?s)], values_buf = snd (snd ?s)\<rparr>"
  from convert_layout_tensor_eq [OF wf ty r flip]
  have eq: "convert_layout_tensor ty ty' t = Some ?t'" .
  from wf have csr: "wf_csr ?M ?N ?Ap ?Aj ?Ax" and ls: "length (sizes t) = 2"
    by (simp_all add: wf_matrix_def)
  from ty r have rv: "rev_map t = (if tt_layout ty = RowMajor then [0, 1] else [1, 0])"
    by (simp add: has_type_def)
  note cb = convert_buffers_correct [OF csr, of "replicate (Suc ?N) 0" "replicate (length ?Aj) 0"
      "replicate (length ?Aj) 0"]
  from cb(1) have wf': "wf_matrix ?t'" by (simp add: wf_matrix_def)
  from r' have ty': "has_type ?t' ty'" by (simp add: has_type_def getRank_def)
  have "set (coo_entries ?t') = set (coo_entries t)"
  proof -
    let ?f = "\<lambda>rv. \<lambda>((a, b), v::'v). (([a, b] ! (rv ! 0), [a, b] ! (rv ! 1)), v)"
    have "set (coo_entries ?t') = ?f (rev_map ?t') ` swap_entry ` set (stored_entries ?Ap ?Aj ?Ax ?M)"
      using cb(2) by (simp add: coo_entries_def)
    also have "\<dots> = ?f (rev_map t) ` set (stored_entries ?Ap ?Aj ?Ax ?M)"
    proof -
      have "?f (rev_map ?t') (swap_entry e) = ?f (rev_map t) e" for e
        using flip rv by (cases "tt_layout ty"; cases "tt_layout ty'")
          (auto simp: swap_entry_def split: prod.splits)
      then show ?thesis by (simp add: image_image)
    qed
    also have "\<dots> = set (coo_entries t)" by (simp add: coo_entries_def)
    finally show ?thesis .
  qed
  moreover have "NumRows ?t' = NumRows t \<and> NumCols ?t' = NumCols t"
    using flip rv by (cases "tt_layout ty"; cases "tt_layout ty'")
      (auto simp: NumRows_def NumCols_def dim_def)
  ultimately show ?thesis using eq wf' ty' by blast
qed

lemma convert_layout_step:
  fixes h :: "('v::zero) heap"
  assumes "a < length h" "wf_matrix (h ! a)" "has_type (h ! a) ty" "tt_rank ty = 2" "tt_rank ty' = 2"
    and "ty' = ty \<or> tt_layout ty' \<noteq> tt_layout ty"
  shows "\<exists>b h'. convert_layout h a ty ty' = Some (b, h') \<and> b < length h'
           \<and> wf_matrix (h' ! b) \<and> has_type (h' ! b) ty'
           \<and> set (coo_entries (h' ! b)) = set (coo_entries (h ! a))
           \<and> NumRows (h' ! b) = NumRows (h ! a) \<and> NumCols (h' ! b) = NumCols (h ! a)"
proof (cases "ty' = ty")
  case True
  with assms show ?thesis by (simp add: convert_layout_def)
next
  case False
  with assms(6) have flip: "tt_layout ty' \<noteq> tt_layout ty" by simp
  from convert_layout_tensor_correct [OF assms(2,3,4,5) flip]
  obtain t' where "convert_layout_tensor ty ty' (h ! a) = Some t'" "wf_matrix t'" "has_type t' ty'"
    "set (coo_entries t') = set (coo_entries (h ! a))"
    "NumRows t' = NumRows (h ! a)" "NumCols t' = NumCols (h ! a)" by blast
  with False show ?thesis by (simp add: convert_layout_def)
qed

text \<open>
  C3: a well-formed matrix converted to a layout and the result converted to a layout
  again (each target the layout at hand or the other one, so in particular there and
  back) holds the same set of (logical coordinate, value) pairs and has the same
  logical shape as the matrix at the start; both conversions return a tensor.
\<close>

theorem convert_layout_round_trip:
  fixes h :: "('v::zero) heap"
  assumes "a < length h" "wf_matrix (h ! a)" "has_type (h ! a) ty"
    and "tt_rank ty = 2" "tt_rank ty1 = 2" "tt_rank ty2 = 2"
    and "ty1 = ty \<or> tt_layout ty1 \<noteq> tt_layout ty"
    and "ty2 = ty1 \<or> tt_layout ty2 \<noteq> tt_layout ty1"
  shows "\<exists>b h1 c h2. convert_layout h a ty ty1 = Some (b, h1)
           \<and> convert_layout h1 b ty1 ty2 = Some (c, h2)
           \<and> set (coo_entries (h2 ! c)) = set (coo_entries (h ! a))
           \<and> NumRows (h2 ! c) = NumRows (h ! a) \<and> NumCols (h2 ! c) = NumCols (h ! a)"
proof -
  from convert_layout_step [OF assms(1,2,3,4,5,7)]
  obtain b h1 where 1: "convert_layout h a ty ty1 = Some (b, h1)" "b < length h1"
    "wf_matrix (h1 ! b)" "has_type (h1 ! b) ty1"
    "set (coo_entries (h1 ! b)) = set (coo_entries (h ! a))"
    "NumRows (h1 ! b) = NumRows (h ! a)" "NumCols (h1 ! b) = NumCols (h ! a)" by blast
  from convert_layout_step [OF 1(2,3,4) assms(5,6,8)]
  obtain c h2 where 2: "convert_layout h1 b ty1 ty2 = Some (c, h2)"
    "set (coo_entries (h2 ! c)) = set (coo_entries (h1 ! b))"
    "NumRows (h2 ! c) = NumRows (h1 ! b)" "NumCols (h2 ! c) = NumCols (h1 ! b)" by blast
  from 1 2 show ?thesis by simp
qed

theorem convert_layout_round_trip_witness:
  "(0::nat) < length [a_csr] \<and> wf_matrix ([a_csr] ! 0) \<and> has_type ([a_csr] ! 0) CSR64
   \<and> tt_rank CSR64 = 2 \<and> tt_rank CSC64 = 2 \<and> tt_layout CSC64 \<noteq> tt_layout CSR64
   \<and> (\<exists>b h1 c h2. convert_layout [a_csr] 0 CSR64 CSC64 = Some (b, h1)
           \<and> convert_layout h1 b CSC64 CSR64 = Some (c, h2)
           \<and> set (coo_entries (h2 ! c)) = set (coo_entries ([a_csr] ! 0))
           \<and> NumRows (h2 ! c) = NumRows ([a_csr] ! 0) \<and> NumCols (h2 ! c) = NumCols ([a_csr] ! 0))"
  using convert_layout_round_trip [of 0 "[a_csr]" CSR64 CSC64 CSR64]
  by (simp add: a_csr_def CSR64_def CSC64_def wf_matrix_def wf_csr_def has_type_def getRank_def
      numeral_2_eq_2 less_Suc_eq)

end
